theory Spec2Isabelle
  imports
    Main
    "HOL-Library.AList"
    "HOL-Library.Char_ord"
    "HOL-Library.List_Lexorder"
    "HOL-Library.Multiset"
begin

section \<open>check\_changes.go: comparing two Unicode IDNA property snapshots\<close>

text \<open>
  The development embeds \<^verbatim>\<open>compareVersions\<close> of \<^verbatim>\<open>src/check_changes.go\<close>.
  Go strings are byte strings and become \<^typ>\<open>string\<close>; Go's \<^verbatim>\<open>int\<close> becomes \<^typ>\<open>int\<close>
  (every integer of the program is a counter bounded by the number of map keys or a
  value that \<^verbatim>\<open>strconv.ParseInt(_, 16, 32)\<close> has bounded, so 64-bit wrap-around is out of
  reach); a Go \<^verbatim>\<open>map[string]T\<close> becomes an association list with distinct keys.
\<close>

subsection \<open>Formatting and parsing of integers (package fmt, package strconv)\<close>

definition hexDigit :: "nat \<Rightarrow> char" where
  "hexDigit d = ''0123456789ABCDEF'' ! d"

function hexUpper :: "nat \<Rightarrow> string" where
  "hexUpper n = (if n < 16 then [hexDigit n] else hexUpper (n div 16) @ [hexDigit (n mod 16)])"
  by pat_completeness auto
termination
  by (relation "measure id") auto

declare hexUpper.simps [simp del]

definition decDigit :: "nat \<Rightarrow> char" where
  "decDigit d = ''0123456789'' ! d"

function decimal :: "nat \<Rightarrow> string" where
  "decimal n = (if n < 10 then [decDigit n] else decimal (n div 10) @ [decDigit (n mod 10)])"
  by pat_completeness auto
termination
  by (relation "measure id") auto

declare decimal.simps [simp del]

text \<open>Left padding with zeros up to a width, as the flag \<^verbatim>\<open>0\<close> of a verb does.\<close>

definition padZero :: "nat \<Rightarrow> string \<Rightarrow> string" where
  "padZero w s = replicate (w - length s) CHR ''0'' @ s"

text \<open>
  \<^verbatim>\<open>fmt.Sprintf("%04X", n)\<close> for an \<^verbatim>\<open>int\<close>: upper-case hexadecimal digits of the
  magnitude, padded with zeros to width four; the sign of a negative number takes one
  of the four columns.
\<close>

definition fmt04X :: "int \<Rightarrow> string" where
  "fmt04X n = (if n < 0 then CHR ''-'' # padZero 3 (hexUpper (nat (- n)))
               else padZero 4 (hexUpper (nat n)))"

text \<open>The verb \<^verbatim>\<open>%d\<close>.\<close>

definition fmtD :: "int \<Rightarrow> string" where
  "fmtD n = (if n < 0 then CHR ''-'' # decimal (nat (- n)) else decimal (nat n))"

text \<open>
  \<^verbatim>\<open>strconv.ParseInt(s, 16, 32)\<close>: an optional sign, then at least one hexadecimal digit
  of either case and nothing else (base 16 is given, so neither underscores nor a
  \<^verbatim>\<open>0x\<close> prefix are accepted); the value has to fit 32 signed bits. \<open>None\<close> is the error.
\<close>

definition hexDigitVal :: "char \<Rightarrow> nat option" where
  "hexDigitVal c =
     (if CHR ''0'' \<le> c \<and> c \<le> CHR ''9'' then Some (of_char c - 48)
      else if CHR ''a'' \<le> c \<and> c \<le> CHR ''f'' then Some (of_char c - 87)
      else if CHR ''A'' \<le> c \<and> c \<le> CHR ''F'' then Some (of_char c - 55)
      else None)"

fun parseDigits :: "nat \<Rightarrow> string \<Rightarrow> nat option" where
  "parseDigits n [] = Some n"
| "parseDigits n (c # cs) =
     (case hexDigitVal c of None \<Rightarrow> None | Some d \<Rightarrow> parseDigits (n * 16 + d) cs)"

definition parseUint16 :: "string \<Rightarrow> nat option" where
  "parseUint16 s = (if s = [] then None else parseDigits 0 s)"

definition parseInt16_32 :: "string \<Rightarrow> int option" where
  "parseInt16_32 s =
     (case s of
        [] \<Rightarrow> None
      | c # cs \<Rightarrow>
          (let neg = (c = CHR ''-'');
               ds = (if c = CHR ''+'' \<or> c = CHR ''-'' then cs else s)
           in case parseUint16 ds of
                None \<Rightarrow> None
              | Some un \<Rightarrow>
                  if \<not> neg \<and> un \<ge> 2147483648 then None
                  else if neg \<and> un > 2147483648 then None
                  else Some (if neg then - int un else int un)))"

text \<open>
  \<^verbatim>\<open>hexToInt\<close> (lines 54--60) panics with a message when the string does not parse;
  the panic is the left summand.
\<close>

definition hexToInt :: "string \<Rightarrow> string + int" where
  "hexToInt hexStr =
     (case parseInt16_32 hexStr of
        None \<Rightarrow> Inl (''Invalid hex string: '' @ hexStr)
      | Some v \<Rightarrow> Inr v)"

subsection \<open>Go maps, the console and the report buffer\<close>

text \<open>
  A map is the list of its key-value pairs, keys distinct. \<open>map_of m k\<close> is the
  two-valued lookup \<^verbatim>\<open>v, ok := m[k]\<close>; \<open>index m k\<close> is the plain \<^verbatim>\<open>m[k]\<close>, which yields
  the zero value of the element type for a missing key (the empty string, the nil
  slice, 0); \<open>AList.update k v m\<close> is the assignment \<^verbatim>\<open>m[k] = v\<close>.
\<close>

type_synonym 'v gomap = "(string \<times> 'v) list"

definition index :: "'a list gomap \<Rightarrow> string \<Rightarrow> 'a list" where
  "index m k = (case map_of m k of None \<Rightarrow> [] | Some v \<Rightarrow> v)"

definition indexInt :: "int gomap \<Rightarrow> string \<Rightarrow> int" where
  "indexInt m k = (case map_of m k of None \<Rightarrow> 0 | Some v \<Rightarrow> v)"

text \<open>
  Go leaves the order of a \<^verbatim>\<open>range\<close> over a map unspecified. Each of the four \<^verbatim>\<open>range\<close>
  statements over a map takes the order the runtime chose from a schedule: a function
  that rearranges the pairs of the map.
\<close>

record schedule =
  range160 :: "string gomap \<Rightarrow> string gomap"
  range214 :: "int gomap \<Rightarrow> int gomap"
  range292 :: "string gomap \<Rightarrow> string gomap"
  range301 :: "string gomap \<Rightarrow> string gomap"

definition fair :: "schedule \<Rightarrow> bool" where
  "fair sch \<longleftrightarrow>
     (\<forall>m. mset (range160 sch m) = mset m) \<and> (\<forall>m. mset (range214 sch m) = mset m) \<and>
     (\<forall>m. mset (range292 sch m) = mset m) \<and> (\<forall>m. mset (range301 sch m) = mset m)"

text \<open>Lines 18--21.\<close>

record Entry =
  Number :: int
  Name :: string

text \<open>
  What reaches standard output: a chunk printed at once by \<^verbatim>\<open>fmt.Printf\<close> or
  \<^verbatim>\<open>fmt.Println\<close>, or the report buffer printed at line 448, kept as the list of the
  chunks that were written into it (its text is their concatenation).
\<close>

datatype event = Printed string | Report "string list"

text \<open>How \<^verbatim>\<open>compareVersions\<close> ends: at its last line, at an early \<^verbatim>\<open>return\<close>, or in a panic.\<close>

datatype ending = Finished | Returned | Panicked string

text \<open>The variables of \<^verbatim>\<open>compareVersions\<close> that are assigned after their declaration.\<close>

record state =
  stdout :: "event list"
  buffer :: "string list"
  appendix :: "Entry list"
  numAppendixA :: int
  numAppendixB :: int
  numAppendixC :: int
  numAppendixD :: int
  numAppendixE :: int
  properties2 :: "string gomap"
  changeCounts :: "int gomap"
  noChangeFromOtherNFK :: bool
  num2Appendix :: int

definition printf :: "string \<Rightarrow> state \<Rightarrow> state" where
  "printf text s = s\<lparr>stdout := stdout s @ [Printed text]\<rparr>"

definition fprintf :: "string \<Rightarrow> state \<Rightarrow> state" where
  "fprintf text s = s\<lparr>buffer := buffer s @ [text]\<rparr>"

text \<open>
  The three loaders (lines 24--129) read files; the model takes what they return for a
  path from the environment. An error is the left summand, carrying its message.
\<close>

record loaders =
  readCodepointProperties :: "string \<Rightarrow> string + (string gomap \<times> string gomap)"
  readGeneralCategory :: "string \<Rightarrow> string + string gomap"
  readNFKData :: "string \<Rightarrow> string + (string list) gomap"

text \<open>
  \<^verbatim>\<open>filepath.Join\<close> of a version label and a file name. On the labels that \<^verbatim>\<open>main\<close> lets
  through (digits and dots) cleaning the path changes nothing.
\<close>

definition filepath_Join :: "string \<Rightarrow> string \<Rightarrow> string" where
  "filepath_Join dir file = dir @ ''/'' @ file"

text \<open>\<^verbatim>\<open>strings.Join(xs, " ")\<close>.\<close>

fun strings_Join :: "string list \<Rightarrow> string \<Rightarrow> string" where
  "strings_Join [] sep = []"
| "strings_Join [x] sep = x"
| "strings_Join (x # y # ys) sep = x @ sep @ strings_Join (y # ys) sep"

subsection \<open>Lines 156--165: the sorted codepoints of the new version\<close>

fun collectCodepoints :: "string list \<Rightarrow> int list \<Rightarrow> string + int list" where
  "collectCodepoints [] codepoints = Inr codepoints"
| "collectCodepoints (codepoint # rest) codepoints =
     (case hexToInt codepoint of
        Inl msg \<Rightarrow> Inl msg
      | Inr v \<Rightarrow> collectCodepoints rest (codepoints @ [v]))"

subsection \<open>Lines 173--206: Appendix A\<close>

text \<open>The entry that the loops of Appendix A, C and D append to \<^verbatim>\<open>appendix\<close>.\<close>

definition underReview :: "string gomap \<Rightarrow> int \<Rightarrow> string \<Rightarrow> Entry" where
  "underReview codePointNames2 number codepoint =
     \<lparr>Number = number,
      Name = ''U+'' @ codepoint @ ''; UNDER REVIEW # '' @ index codePointNames2 codepoint\<rparr>"

definition stepA :: "string gomap \<Rightarrow> string gomap \<Rightarrow> int \<Rightarrow> state \<Rightarrow> state" where
  "stepA properties1 codePointNames2 codepointInt s =
     (let codepoint = fmt04X codepointInt;
          newProperty = index (properties2 s) codepoint
      in case map_of properties1 codepoint of
           None \<Rightarrow> s
         | Some oldProperty \<Rightarrow>
             if oldProperty \<noteq> newProperty then
               (let changeKey = oldProperty @ '' to '' @ newProperty;
                    s = s\<lparr>changeCounts :=
                          AList.update changeKey (indexInt (changeCounts s) changeKey + 1)
                            (changeCounts s)\<rparr>
                in if oldProperty \<noteq> ''UNASSIGNED'' then
                     (let s = printf (codepoint @ '' changed from '' @ oldProperty @ '' to ''
                                       @ newProperty @ ''\<newline>'') s;
                          s = (if numAppendixA s = 0
                               then fprintf ''# Code point; Old; New; Name\<newline>'' s else s);
                          s = fprintf (''U+'' @ codepoint @ ''; '' @ oldProperty @ ''; ''
                                        @ newProperty @ ''; '' @ index codePointNames2 codepoint
                                        @ ''\<newline>'') s;
                          s = s\<lparr>appendix := appendix s
                                 @ [underReview codePointNames2 codepointInt codepoint]\<rparr>;
                          s = s\<lparr>numAppendixA := numAppendixA s + 1\<rparr>
                      in s\<lparr>numAppendixE := numAppendixE s + 1\<rparr>)
                   else s)
             else s)"

definition appendixA :: "string gomap \<Rightarrow> string gomap \<Rightarrow> int list \<Rightarrow> state \<Rightarrow> state" where
  "appendixA properties1 codePointNames2 codepoints s =
     (let s = s\<lparr>changeCounts := []\<rparr>;
          s = fprintf
                ''\<newline>Appendix A: Code points that changed derived property values\<newline>\<newline>'' s;
          s = fold (stepA properties1 codePointNames2) codepoints s;
          s = (if numAppendixA s = 0
               then fprintf ''# No change in derived property value except from UNASSIGED\<newline>'' s
               else s)
      in printf (''Number of code points in Appendix A: '' @ fmtD (numAppendixA s)
                 @ ''\<newline>'') s)"

subsection \<open>Lines 208--233: the grouped summary of changes\<close>

definition plural :: "int \<Rightarrow> string" where
  "plural n = (if n = 1 then ''point'' else ''points'')"

definition changeSummary :: "(int gomap \<Rightarrow> int gomap) \<Rightarrow> state \<Rightarrow> state" where
  "changeSummary order s =
     (let s = printf ''Count changes in derived property values\<newline>'' s
      in if length (changeCounts s) > 0 then
           (let (totalCount, sortedChanges) =
                  fold (\<lambda>(change, count') (totalCount, sortedChanges).
                          (totalCount + count',
                           sortedChanges @ [''# '' @ fmtD count' @ '' code '' @ plural count'
                                            @ '' changed from '' @ change]))
                    (order (changeCounts s)) (0, []);
                sortedChanges = sort sortedChanges;
                s = fold (\<lambda>change. fprintf (change @ ''\<newline>'')) sortedChanges s
            in fprintf (''# '' @ fmtD totalCount @ '' code '' @ plural totalCount
                        @ '' changed in total\<newline>'') s)
         else fprintf ''# No derived property changes detected.\<newline>'' s)"

subsection \<open>Lines 251--283: Appendix B\<close>

definition stepB ::
  "string gomap \<Rightarrow> string gomap \<Rightarrow> string gomap \<Rightarrow> string gomap \<Rightarrow> int \<Rightarrow> state \<Rightarrow> state"
where
  "stepB properties1 codePointNames2 generalCategory1 generalCategory2 codepointInt s =
     (let codepoint = fmt04X codepointInt;
          newProperty = index (properties2 s) codepoint
      in case map_of properties1 codepoint of
           None \<Rightarrow> s
         | Some oldProperty \<Rightarrow>
             (let oldCategory = index generalCategory1 codepoint;
                  newCategory = index generalCategory2 codepoint
              in if oldCategory \<noteq> newCategory \<and> oldProperty \<noteq> ''UNASSIGNED''
                    \<and> newProperty \<noteq> ''UNASSIGNED'' then
                   (let s = (if numAppendixB s = 0
                             then fprintf ''# Code point; Old GC; New GC; Name\<newline>\<newline>'' s
                             else s);
                        s = printf (''Code point U+'' @ codepoint @ '' changed from ''
                                     @ oldProperty @ '' to '' @ newProperty
                                     @ '' (General Category: '' @ oldCategory @ '' to ''
                                     @ newCategory @ '')\<newline>'') s;
                        s = fprintf (''U+'' @ codepoint @ ''; '' @ oldCategory @ ''; ''
                                      @ newCategory @ ''; '' @ index codePointNames2 codepoint
                                      @ ''\<newline>'') s
                    in s\<lparr>numAppendixB := numAppendixB s + 1\<rparr>)
                 else s))"

definition appendixB ::
  "string gomap \<Rightarrow> string gomap \<Rightarrow> string gomap \<Rightarrow> string gomap \<Rightarrow> int list \<Rightarrow> state \<Rightarrow> state"
where
  "appendixB properties1 codePointNames2 generalCategory1 generalCategory2 codepoints s =
     (let s = printf ''Check changes in General Category:\<newline>'' s;
          s = fprintf ''\<newline>\<newline>Appendix B: Changes in General Category\<newline>\<newline>'' s;
          s = fold (stepB properties1 codePointNames2 generalCategory1 generalCategory2)
                codepoints s;
          s = (if numAppendixB s = 0
               then fprintf ''# No changes in General Category detected\<newline>'' s else s)
      in printf (''Number of code points in Appendix B: '' @ fmtD (numAppendixB s)
                 @ ''\<newline>'') s)"

subsection \<open>Lines 285--331: Appendix C\<close>

definition countMn :: "string gomap \<Rightarrow> string gomap \<Rightarrow> int" where
  "countMn generalCategory pairs =
     fold (\<lambda>(codepoint, property) n.
             if property \<noteq> ''UNASSIGNED'' \<and> index generalCategory codepoint = ''Mn''
             then n + 1 else n)
       pairs 0"

definition stepC ::
  "string gomap \<Rightarrow> string gomap \<Rightarrow> string gomap \<Rightarrow> int \<Rightarrow> state \<Rightarrow> state"
where
  "stepC codePointNames2 generalCategory1 generalCategory2 codepointInt s =
     (let codepoint = fmt04X codepointInt;
          property = index (properties2 s) codepoint
      in if property \<noteq> ''UNASSIGNED'' \<and> index generalCategory2 codepoint = ''Mn'' then
           (if index generalCategory1 codepoint \<noteq> ''Mn'' then
              (let s = (if numAppendixC s = 0
                        then fprintf ''# Code point; Name\<newline>'' s else s);
                   s = fprintf (''U+'' @ codepoint @ ''; '' @ index codePointNames2 codepoint
                                 @ ''\<newline>'') s;
                   s = s\<lparr>appendix := appendix s
                          @ [underReview codePointNames2 codepointInt codepoint]\<rparr>;
                   s = s\<lparr>numAppendixC := numAppendixC s + 1\<rparr>
               in s\<lparr>numAppendixE := numAppendixE s + 1\<rparr>)
            else s)
         else s)"

definition appendixC ::
  "schedule \<Rightarrow> string \<Rightarrow> string \<Rightarrow> string gomap \<Rightarrow> string gomap \<Rightarrow> string gomap \<Rightarrow>
   string gomap \<Rightarrow> int list \<Rightarrow> state \<Rightarrow> state"
where
  "appendixC sch version1 version2 properties1 codePointNames2 generalCategory1
     generalCategory2 codepoints s =
     (let s = fprintf
                ''\<newline>\<newline>Appendix C: New code points where General Category is Mn\<newline>\<newline>'' s;
          s = printf ''Count code points with General_Category Mn\<newline>'' s;
          count1Mn = countMn generalCategory1 (range292 sch properties1);
          s = printf (''Number of code points with General_Category Mn in version ''
                       @ version1 @ '': '' @ fmtD count1Mn @ ''\<newline>'') s;
          count2Mn = countMn generalCategory2 (range301 sch (properties2 s));
          s = printf (''Number of code points with General_Category Mn in version ''
                       @ version2 @ '': '' @ fmtD count2Mn @ ''\<newline>'') s;
          s = fold (stepC codePointNames2 generalCategory1 generalCategory2) codepoints s;
          s = (if numAppendixC s = 0
               then fprintf ''# No new code points with General Category Mn\<newline>'' s else s);
          s = printf (''Increase in number of code points with General_Category Mn: ''
                       @ fmtD (count2Mn - count1Mn) @ ''\<newline>'') s
      in printf (''Number of code points in Appendix C: '' @ fmtD (numAppendixC s)
                 @ ''\<newline>'') s)"

subsection \<open>Lines 355--387: Appendix D\<close>

text \<open>
  The loop body calls \<^verbatim>\<open>hexToInt\<close>, so it can panic: the left summand carries the
  message and the state at the panic.
\<close>

definition stepD ::
  "string gomap \<Rightarrow> string gomap \<Rightarrow> (string list) gomap \<Rightarrow> (string list) gomap \<Rightarrow> int
   \<Rightarrow> state \<Rightarrow> (string \<times> state) + state"
where
  "stepD properties1 codePointNames2 nfk1 nfk2 codepointInt s =
     (let codepoint = fmt04X codepointInt;
          newProperty = index (properties2 s) codepoint
      in case map_of properties1 codepoint of
           None \<Rightarrow> Inr s
         | Some oldProperty \<Rightarrow>
             (let oldNFK = strings_Join (index nfk1 codepoint) '' '';
                  newNFK = strings_Join (index nfk2 codepoint) '' '';
                  s = (if oldProperty \<noteq> ''UNASSIGNED'' \<and> length (index nfk2 codepoint) > 1
                          \<and> oldNFK \<noteq> newNFK then
                         (let s = printf (''Changed normalization for code point '' @ codepoint
                                           @ '' ('' @ oldProperty @ '' '' @ newProperty @ ''): ''
                                           @ oldNFK @ '' : '' @ newNFK @ ''\<newline>'') s
                          in s\<lparr>noChangeFromOtherNFK := False\<rparr>)
                       else s)
              in if oldProperty = ''UNASSIGNED'' \<and> newProperty = ''PVALID''
                    \<and> length (index nfk2 codepoint) > 1 then
                   (let s = printf (''New code point to normalize '' @ codepoint @ '' ''
                                     @ newNFK @ ''\<newline>'') s;
                        s = fprintf (''U+'' @ codepoint @ ''; '' @ newNFK @ ''; ''
                                      @ index codePointNames2 codepoint @ ''\<newline>'') s
                    in case hexToInt codepoint of
                         Inl msg \<Rightarrow> Inl (msg, s)
                       | Inr number \<Rightarrow>
                           (let s = s\<lparr>appendix := appendix s
                                       @ [underReview codePointNames2 number codepoint]\<rparr>;
                                s = s\<lparr>numAppendixD := numAppendixD s + 1\<rparr>
                            in Inr (s\<lparr>numAppendixE := numAppendixE s + 1\<rparr>)))
                 else Inr s))"

fun loopD ::
  "string gomap \<Rightarrow> string gomap \<Rightarrow> (string list) gomap \<Rightarrow> (string list) gomap \<Rightarrow> int list
   \<Rightarrow> state \<Rightarrow> (string \<times> state) + state"
where
  "loopD properties1 codePointNames2 nfk1 nfk2 [] s = Inr s"
| "loopD properties1 codePointNames2 nfk1 nfk2 (codepointInt # rest) s =
     (case stepD properties1 codePointNames2 nfk1 nfk2 codepointInt s of
        Inl panic \<Rightarrow> Inl panic
      | Inr s' \<Rightarrow> loopD properties1 codePointNames2 nfk1 nfk2 rest s')"

definition appendixD ::
  "string gomap \<Rightarrow> string gomap \<Rightarrow> (string list) gomap \<Rightarrow> (string list) gomap \<Rightarrow> int list
   \<Rightarrow> state \<Rightarrow> (string \<times> state) + state"
where
  "appendixD properties1 codePointNames2 nfk1 nfk2 codepoints s =
     (case loopD properties1 codePointNames2 nfk1 nfk2 codepoints
             (s\<lparr>noChangeFromOtherNFK := True\<rparr>) of
        Inl panic \<Rightarrow> Inl panic
      | Inr s \<Rightarrow>
          (let s = (if numAppendixD s = 0
                    then fprintf
                           ''# No new code points with length of NFK greater than one\<newline>'' s
                    else s);
               s = (if noChangeFromOtherNFK s then printf ''No change in NFK\<newline>'' s else s);
               s = printf (''Number of new code points with length of NFK greater than one:  ''
                            @ fmtD (numAppendixD s) @ ''\<newline>'') s
           in Inr (printf (''Number of code points in Appendix D:  '' @ fmtD (numAppendixD s)
                           @ ''\<newline>'') s)))"

subsection \<open>Lines 389--408: Appendix E and the overwriting of flagged codepoints\<close>

text \<open>
  \<^verbatim>\<open>sort.Slice(appendix, less)\<close> belongs to Go's library. It rearranges the slice in
  place and calls \<^verbatim>\<open>less(i, j)\<close> on positions of the slice; which rearrangement it ends
  with is the library's choice. The model takes the library function as a parameter
  that, for the length of the slice and the \<^verbatim>\<open>less\<close> function read on the positions before
  the call, returns the rearrangement: the old positions in their new order. The
  \<^verbatim>\<open>less\<close> of line 394 compares two entries by their numbers alone, so reading it on the
  old positions loses nothing. \<open>sortSliceContract\<close> is what the library documents: the
  result is a rearrangement of the slice, and it is in the order of \<^verbatim>\<open>less\<close> when \<^verbatim>\<open>less\<close> is
  a strict weak ordering of the positions; it is ``not guaranteed to be stable: equal
  elements may be reversed from their original order''. (\<^verbatim>\<open>sort.Ints\<close> and \<^verbatim>\<open>sort.Strings\<close>
  sort by a linear order under which equal elements are identical, so their result is
  \<^const>\<open>sort\<close>.)
\<close>

type_synonym sortSlice = "nat \<Rightarrow> (nat \<Rightarrow> nat \<Rightarrow> bool) \<Rightarrow> nat list"

definition strictWeak :: "nat \<Rightarrow> (nat \<Rightarrow> nat \<Rightarrow> bool) \<Rightarrow> bool" where
  "strictWeak n less' \<longleftrightarrow>
     (\<forall>i j. i < n \<and> j < n \<and> less' i j \<longrightarrow> \<not> less' j i) \<and>
     (\<forall>i j k. i < n \<and> j < n \<and> k < n \<and> \<not> less' j i \<and> \<not> less' k j \<longrightarrow> \<not> less' k i)"

definition sortSliceContract :: "sortSlice \<Rightarrow> bool" where
  "sortSliceContract sortSlice \<longleftrightarrow>
     (\<forall>n less'. mset (sortSlice n less') = mset [0..<n] \<and>
        (strictWeak n less' \<longrightarrow> sorted_wrt (\<lambda>i j. \<not> less' j i) (sortSlice n less')))"

text \<open>
  Lines 392--395: the slice after the call, with the \<^verbatim>\<open>less\<close> function of line 394.
\<close>

definition sortAppendix :: "sortSlice \<Rightarrow> Entry list \<Rightarrow> Entry list" where
  "sortAppendix sortSlice appendix' =
     map (\<lambda>i. appendix' ! i)
       (sortSlice (length appendix')
          (\<lambda>i j. Number (appendix' ! i) < Number (appendix' ! j)))"

text \<open>
  What the overwriting loop needs of the call: the same entries come back, in
  ascending order of their numbers. It follows from \<open>sortSliceContract\<close>.
\<close>

definition sortsByNumber :: "sortSlice \<Rightarrow> bool" where
  "sortsByNumber sortSlice \<longleftrightarrow>
     (\<forall>xs. mset (sortAppendix sortSlice xs) = mset xs
           \<and> sorted (map Number (sortAppendix sortSlice xs)))"

definition stepE :: "Entry \<Rightarrow> state \<Rightarrow> state" where
  "stepE entry s =
     (let s = fprintf (Name entry @ ''\<newline>'') s;
          codepoint = fmt04X (Number entry);
          s = s\<lparr>properties2 := AList.update codepoint ''UNDER REVIEW'' (properties2 s)\<rparr>
      in s\<lparr>num2Appendix := num2Appendix s + 1\<rparr>)"

definition appendixE :: "sortSlice \<Rightarrow> state \<Rightarrow> state" where
  "appendixE sortSlice s =
     (let s = fprintf ''\<newline>Appendix E: Additions to Exceptions (F)\<newline>\<newline>'' s;
          s = s\<lparr>num2Appendix := 0\<rparr>;
          s = s\<lparr>appendix := sortAppendix sortSlice (appendix s)\<rparr>;
          s = fold stepE (appendix s) s;
          s = printf (''Total number of entries in Appendix E (Additions to Exceptions): ''
                       @ fmtD (numAppendixE s) @ ''\<newline>'') s
      in if numAppendixE s = 0
         then fprintf ''# No additional code points to become UNDER REVIEW\<newline>'' s else s)"

subsection \<open>Lines 410--446: Appendix F, the ranges of equal property\<close>

text \<open>
  The loop writes one line per range with \<^verbatim>\<open>fmt.Fprintf\<close>, at line 431/433 and again at
  line 443/445. The model takes what is written for a range as the parameter \<open>emit\<close>,
  so that the same loop yields the text lines (with \<open>rangeLine\<close>, as the program does) and
  the ranges themselves (with \<open>rangeTriple\<close>). The loop variables are \<open>first\<close>, \<open>start\<close>,
  \<open>end\<close>, \<open>currentProperty\<close>, in that order, then what has been written.
\<close>

definition rangeLine :: "int \<Rightarrow> int \<Rightarrow> string \<Rightarrow> string" where
  "rangeLine start end' currentProperty =
     (if start = end' then ''U+'' @ fmt04X start @ ''; '' @ currentProperty @ ''\<newline>''
      else ''U+'' @ fmt04X start @ ''..U+'' @ fmt04X end' @ ''; '' @ currentProperty
           @ ''\<newline>'')"

definition rangeTriple :: "int \<Rightarrow> int \<Rightarrow> string \<Rightarrow> int \<times> int \<times> string" where
  "rangeTriple start end' currentProperty = (start, end', currentProperty)"

definition stepF ::
  "(int \<Rightarrow> int \<Rightarrow> string \<Rightarrow> 'a) \<Rightarrow> string gomap \<Rightarrow> int
   \<Rightarrow> bool \<times> int \<times> int \<times> string \<times> 'a list \<Rightarrow> bool \<times> int \<times> int \<times> string \<times> 'a list"
where
  "stepF emit properties codepointInt v =
     (case v of (first, start, end', currentProperty, written) \<Rightarrow>
        (let codepoint = fmt04X codepointInt;
             property = index properties codepoint
         in if first then (False, codepointInt, codepointInt, property, written)
            else if property = currentProperty
            then (first, start, codepointInt, currentProperty, written)
            else (first, codepointInt, codepointInt, property,
                  written @ [emit start end' currentProperty])))"

definition rangeCompactor ::
  "(int \<Rightarrow> int \<Rightarrow> string \<Rightarrow> 'a) \<Rightarrow> string gomap \<Rightarrow> int list \<Rightarrow> 'a list"
where
  "rangeCompactor emit properties codepoints =
     (case fold (stepF emit properties) codepoints (True, 0, 0, [], []) of
        (first, start, end', currentProperty, written) \<Rightarrow>
          written @ [emit start end' currentProperty])"

definition appendixF :: "string \<Rightarrow> int list \<Rightarrow> state \<Rightarrow> state" where
  "appendixF version2 codepoints s =
     (let s = fprintf (''\<newline>Appendix F: Derived property values Unicode '' @ version2
                        @ ''\<newline>\<newline>'') s
      in s\<lparr>buffer := buffer s @ rangeCompactor rangeLine (properties2 s) codepoints\<rparr>)"

subsection \<open>Lines 131--451: compareVersions\<close>

definition initial :: state where
  "initial =
     \<lparr>stdout = [], buffer = [], appendix = [], numAppendixA = 0, numAppendixB = 0,
      numAppendixC = 0, numAppendixD = 0, numAppendixE = 0, properties2 = [],
      changeCounts = [], noChangeFromOtherNFK = True, num2Appendix = 0\<rparr>"

text \<open>Lines 333--451, from the reading of the decompositions to the end.\<close>

definition compareVersionsNFK ::
  "sortSlice \<Rightarrow> loaders \<Rightarrow> string \<Rightarrow> string \<Rightarrow> string gomap \<Rightarrow> string gomap
   \<Rightarrow> int list \<Rightarrow> state \<Rightarrow> ending \<times> state"
where
  "compareVersionsNFK sortSlice ld version1 version2 properties1 codePointNames2 codepoints s =
     (let s = fprintf
                ''\<newline>\<newline>Appendix D: New code points with NFK normalization\<newline>\<newline>'' s;
          s = printf ''\<newline>Check changes in NFK for all code points\<newline>'' s
      in case readNFKData ld (filepath_Join version1 ''nfk.txt'') of
           Inl err \<Rightarrow> (Returned, printf (err @ ''\<newline>'') s)
         | Inr nfk1 \<Rightarrow>
             (case readNFKData ld (filepath_Join version2 ''nfk.txt'') of
                Inl err \<Rightarrow> (Returned, printf (err @ ''\<newline>'') s)
              | Inr nfk2 \<Rightarrow>
                  (case appendixD properties1 codePointNames2 nfk1 nfk2 codepoints s of
                     Inl (msg, s) \<Rightarrow> (Panicked msg, s)
                   | Inr s \<Rightarrow>
                       (let s = appendixE sortSlice s;
                            s = appendixF version2 codepoints s;
                            s = s\<lparr>stdout := stdout s @ [Report (buffer s)]\<rparr>;
                            s = s\<lparr>buffer := []\<rparr>
                        in (Finished, printf ''===================\<newline>'' s)))))"

text \<open>Lines 235--451, from the reading of the general categories to the end.\<close>

definition compareVersionsGC ::
  "schedule \<Rightarrow> sortSlice \<Rightarrow> loaders \<Rightarrow> string \<Rightarrow> string \<Rightarrow> string gomap
   \<Rightarrow> string gomap \<Rightarrow> int list \<Rightarrow> state \<Rightarrow> ending \<times> state"
where
  "compareVersionsGC sch sortSlice ld version1 version2 properties1 codePointNames2
     codepoints s =
     (let s = printf ''Reading General Category definitions\<newline>'' s
      in case readGeneralCategory ld (filepath_Join version1 ''DerivedGeneralCategory.txt'') of
           Inl err \<Rightarrow>
             (Returned,
              printf (''Error reading '' @ filepath_Join version1 ''DerivedGeneralCategory.txt''
                      @ '': '' @ err @ ''\<newline>'') s)
         | Inr generalCategory1 \<Rightarrow>
             (case readGeneralCategory ld
                     (filepath_Join version2 ''DerivedGeneralCategory.txt'') of
                Inl err \<Rightarrow>
                  (Returned,
                   printf (''Error reading ''
                           @ filepath_Join version2 ''DerivedGeneralCategory.txt''
                           @ '': '' @ err @ ''\<newline>'') s)
              | Inr generalCategory2 \<Rightarrow>
                  (let s = appendixB properties1 codePointNames2 generalCategory1
                             generalCategory2 codepoints s;
                       s = appendixC sch version1 version2 properties1 codePointNames2
                             generalCategory1 generalCategory2 codepoints s
                   in compareVersionsNFK sortSlice ld version1 version2 properties1
                        codePointNames2 codepoints s)))"

definition compareVersions ::
  "schedule \<Rightarrow> sortSlice \<Rightarrow> loaders \<Rightarrow> string \<Rightarrow> string \<Rightarrow> ending \<times> state"
where
  "compareVersions sch sortSlice ld version1 version2 =
     (let s = initial;
          filePath1 = filepath_Join version1 ''allcodepoints.txt''
      in case readCodepointProperties ld filePath1 of
           Inl err \<Rightarrow>
             (Returned, printf (''Error reading '' @ filePath1 @ '': '' @ err @ ''\<newline>'') s)
         | Inr (properties1, names1) \<Rightarrow>
             (let filePath2 = filepath_Join version2 ''allcodepoints.txt''
              in case readCodepointProperties ld filePath2 of
                   Inl err \<Rightarrow>
                     (Returned,
                      printf (''Error reading '' @ filePath2 @ '': '' @ err @ ''\<newline>'') s)
                 | Inr (properties2', codePointNames2) \<Rightarrow>
                     (let s = s\<lparr>properties2 := properties2'\<rparr>
                      in case collectCodepoints
                                (map fst (range160 sch (properties2 s))) [] of
                           Inl msg \<Rightarrow> (Panicked msg, s)
                         | Inr codepoints \<Rightarrow>
                             (let codepoints = sort codepoints;
                                  s = printf (''Comparing version '' @ version1 @ '' and ''
                                               @ version2 @ ''\<newline>'') s;
                                  s = printf ''Comparing derived property values\<newline>'' s;
                                  s = appendixA properties1 codePointNames2 codepoints s;
                                  s = changeSummary (range214 sch) s
                              in compareVersionsGC sch sortSlice ld version1 version2
                                   properties1 codePointNames2 codepoints s))))"

section \<open>The notions the properties are stated with\<close>

text \<open>
  The conditions under which a codepoint is reported, as the specification words them,
  over the old and new classification (\<open>old\<close>, \<open>new\<close>), the general categories and the
  new decompositions. A codepoint \<open>cp\<close> is looked up under its key \<open>fmt04X cp\<close>.
\<close>

definition strictChange :: "string gomap \<Rightarrow> string gomap \<Rightarrow> int \<Rightarrow> bool" where
  "strictChange old new cp =
     (case map_of old (fmt04X cp) of
        None \<Rightarrow> False
      | Some oldValue \<Rightarrow> oldValue \<noteq> index new (fmt04X cp))"

definition categoryA :: "string gomap \<Rightarrow> string gomap \<Rightarrow> int \<Rightarrow> bool" where
  "categoryA old new cp =
     (case map_of old (fmt04X cp) of
        None \<Rightarrow> False
      | Some oldValue \<Rightarrow> oldValue \<noteq> index new (fmt04X cp) \<and> oldValue \<noteq> ''UNASSIGNED'')"

definition categoryB ::
  "string gomap \<Rightarrow> string gomap \<Rightarrow> string gomap \<Rightarrow> string gomap \<Rightarrow> int \<Rightarrow> bool" where
  "categoryB old new oldGC newGC cp =
     (case map_of old (fmt04X cp) of
        None \<Rightarrow> False
      | Some oldValue \<Rightarrow>
          index oldGC (fmt04X cp) \<noteq> index newGC (fmt04X cp) \<and> oldValue \<noteq> ''UNASSIGNED''
          \<and> index new (fmt04X cp) \<noteq> ''UNASSIGNED'')"

definition categoryC :: "string gomap \<Rightarrow> string gomap \<Rightarrow> string gomap \<Rightarrow> int \<Rightarrow> bool" where
  "categoryC new oldGC newGC cp \<longleftrightarrow>
     index new (fmt04X cp) \<noteq> ''UNASSIGNED'' \<and> index newGC (fmt04X cp) = ''Mn''
     \<and> index oldGC (fmt04X cp) \<noteq> ''Mn''"

definition categoryD :: "string gomap \<Rightarrow> string gomap \<Rightarrow> (string list) gomap \<Rightarrow> int \<Rightarrow> bool" where
  "categoryD old new newNFK cp =
     (case map_of old (fmt04X cp) of
        None \<Rightarrow> False
      | Some oldValue \<Rightarrow>
          oldValue = ''UNASSIGNED'' \<and> index new (fmt04X cp) = ''PVALID''
          \<and> length (index newNFK (fmt04X cp)) > 1)"

text \<open>The report line of a codepoint in each appendix, and its entry in the review list.\<close>

definition lineA :: "string gomap \<Rightarrow> string gomap \<Rightarrow> string gomap \<Rightarrow> int \<Rightarrow> string" where
  "lineA old new names cp =
     ''U+'' @ fmt04X cp @ ''; '' @ index old (fmt04X cp) @ ''; '' @ index new (fmt04X cp)
     @ ''; '' @ index names (fmt04X cp) @ ''\<newline>''"

definition lineB :: "string gomap \<Rightarrow> string gomap \<Rightarrow> string gomap \<Rightarrow> int \<Rightarrow> string" where
  "lineB oldGC newGC names cp =
     ''U+'' @ fmt04X cp @ ''; '' @ index oldGC (fmt04X cp) @ ''; '' @ index newGC (fmt04X cp)
     @ ''; '' @ index names (fmt04X cp) @ ''\<newline>''"

definition lineC :: "string gomap \<Rightarrow> int \<Rightarrow> string" where
  "lineC names cp = ''U+'' @ fmt04X cp @ ''; '' @ index names (fmt04X cp) @ ''\<newline>''"

definition lineD :: "(string list) gomap \<Rightarrow> string gomap \<Rightarrow> int \<Rightarrow> string" where
  "lineD newNFK names cp =
     ''U+'' @ fmt04X cp @ ''; '' @ strings_Join (index newNFK (fmt04X cp)) '' '' @ ''; ''
     @ index names (fmt04X cp) @ ''\<newline>''"

definition flag :: "string gomap \<Rightarrow> int \<Rightarrow> Entry" where
  "flag names cp = underReview names cp (fmt04X cp)"

definition changeKey :: "string gomap \<Rightarrow> string gomap \<Rightarrow> int \<Rightarrow> string" where
  "changeKey old new cp = index old (fmt04X cp) @ '' to '' @ index new (fmt04X cp)"

text \<open>The integers that \<^verbatim>\<open>strconv.ParseInt(_, 16, 32)\<close> can return.\<close>

definition int32 :: "int \<Rightarrow> bool" where
  "int32 n \<longleftrightarrow> - 2147483648 \<le> n \<and> n < 2147483648"

text \<open>Reading back what \<open>fmt04X\<close> wrote, without the bound of 32 bits.\<close>

definition unfmt :: "string \<Rightarrow> int" where
  "unfmt s = (case s of
                [] \<Rightarrow> 0
              | c # cs \<Rightarrow> if c = CHR ''-'' then - int (the (parseUint16 cs))
                          else int (the (parseUint16 s)))"

text \<open>
  The ranges that the loop of Appendix F still has to write when it has the run
  \<open>(s, e, c)\<close> open and the codepoints \<open>xs\<close> ahead, for the table \<open>t\<close>; and the
  re-expansion of ranges into pairs of codepoint and value.
\<close>

fun runsFrom :: "(int \<Rightarrow> string) \<Rightarrow> int \<Rightarrow> int \<Rightarrow> string \<Rightarrow> int list \<Rightarrow> (int \<times> int \<times> string) list"
where
  "runsFrom t s e c [] = [(s, e, c)]"
| "runsFrom t s e c (x # xs) =
     (if t x = c then runsFrom t s x c xs else (s, e, c) # runsFrom t x x (t x) xs)"

definition expand :: "(int \<times> int \<times> string) list \<Rightarrow> (int \<times> string) list" where
  "expand rs = concat (map (\<lambda>(s, e, v). map (\<lambda>cp. (cp, v)) [s..e]) rs)"

text \<open>A line of the grouped summary (line 220), and a review list made of \<open>flag\<close> entries.\<close>

definition summaryLine :: "string \<times> int \<Rightarrow> string" where
  "summaryLine = (\<lambda>(change, n).
     ''# '' @ fmtD n @ '' code '' @ plural n @ '' changed from '' @ change)"

definition flagged :: "string gomap \<Rightarrow> Entry list \<Rightarrow> bool" where
  "flagged names es \<longleftrightarrow> list_all (\<lambda>e. e = flag names (Number e)) es"

text \<open>The schedule that ranges over every map in the order of its list.\<close>

definition inOrder :: schedule where
  "inOrder = \<lparr>range160 = id, range214 = id, range292 = id, range301 = id\<rparr>"

text \<open>The titles of the six sections of the report, as lines 177, 254, 286, 334, 389 and 410 write them.\<close>

definition titleA :: string where
  "titleA = ''\<newline>Appendix A: Code points that changed derived property values\<newline>\<newline>''"

definition titleB :: string where
  "titleB = ''\<newline>\<newline>Appendix B: Changes in General Category\<newline>\<newline>''"

definition titleC :: string where
  "titleC = ''\<newline>\<newline>Appendix C: New code points where General Category is Mn\<newline>\<newline>''"

definition titleD :: string where
  "titleD = ''\<newline>\<newline>Appendix D: New code points with NFK normalization\<newline>\<newline>''"

definition titleE :: string where
  "titleE = ''\<newline>Appendix E: Additions to Exceptions (F)\<newline>\<newline>''"

definition titleF :: "string \<Rightarrow> string" where
  "titleF version2 =
     ''\<newline>Appendix F: Derived property values Unicode '' @ version2 @ ''\<newline>\<newline>''"

text \<open>The report buffers that reached standard output.\<close>

fun reports :: "event list \<Rightarrow> string list list" where
  "reports [] = []"
| "reports (Printed text # es) = reports es"
| "reports (Report chunks # es) = chunks # reports es"

text \<open>A small pair of snapshots, used to instantiate the theorems.\<close>

definition exOld :: "string gomap" where
  "exOld = [(''0041'', ''PVALID''), (''0042'', ''UNASSIGNED''), (''0043'', ''UNASSIGNED''),
            (''0044'', ''PVALID'')]"

definition exNew :: "string gomap" where
  "exNew = [(''0043'', ''PVALID''), (''0041'', ''DISALLOWED''), (''0042'', ''PVALID''),
            (''0044'', ''PVALID''), (''0045'', ''PVALID'')]"

definition exNames :: "string gomap" where
  "exNames = [(''0041'', ''LATIN A''), (''0042'', ''LATIN B''), (''0043'', ''LATIN C''),
              (''0044'', ''LATIN D''), (''0045'', ''LATIN E'')]"

definition exOldGC :: "string gomap" where
  "exOldGC = [(''0041'', ''Lu''), (''0044'', ''Lu'')]"

definition exNewGC :: "string gomap" where
  "exNewGC = [(''0041'', ''Mn''), (''0042'', ''Lu''), (''0043'', ''Lu''), (''0044'', ''Mn''),
              (''0045'', ''Lu'')]"

definition exNewNFK :: "(string list) gomap" where
  "exNewNFK = [(''0042'', [''0041'', ''0300'']), (''0043'', [''0043''])]"

definition exSparse :: "string gomap" where
  "exSparse = [(''0041'', ''PVALID''), (''0043'', ''PVALID'')]"

definition exState :: state where
  "exState = initial\<lparr>properties2 := exNew\<rparr>"

text \<open>
  Two rearrangements that \<^verbatim>\<open>sort.Slice\<close> may choose, both by insertion: one keeps
  positions of equal elements in their order, the other reverses them.
\<close>

fun insertBy :: "(nat \<Rightarrow> nat \<Rightarrow> bool) \<Rightarrow> nat \<Rightarrow> nat list \<Rightarrow> nat list" where
  "insertBy less' i [] = [i]"
| "insertBy less' i (j # js) = (if less' j i then j # insertBy less' i js else i # j # js)"

definition stableSlice :: sortSlice where
  "stableSlice n less' = foldr (insertBy less') [0..<n] []"

definition tiesReversed :: sortSlice where
  "tiesReversed n less' = foldr (insertBy less') (rev [0..<n]) []"

text \<open>
  Loaders that find the files of the two versions, loaders that do not find the
  decompositions, and a schedule that ranges over every map backwards.
\<close>

definition exLoaders :: loaders where
  "exLoaders =
     \<lparr>readCodepointProperties = (\<lambda>path.
        if path = ''12.0.0/allcodepoints.txt'' then Inr (exOld, [])
        else if path = ''13.0.0/allcodepoints.txt'' then Inr (exNew, exNames)
        else Inl (''open '' @ path @ '': no such file or directory'')),
      readGeneralCategory = (\<lambda>path.
        if path = ''12.0.0/DerivedGeneralCategory.txt'' then Inr exOldGC
        else if path = ''13.0.0/DerivedGeneralCategory.txt'' then Inr exNewGC
        else Inl (''open '' @ path @ '': no such file or directory'')),
      readNFKData = (\<lambda>path.
        if path = ''12.0.0/nfk.txt'' then Inr []
        else if path = ''13.0.0/nfk.txt'' then Inr exNewNFK
        else Inl (''error opening file: open '' @ path @ '': no such file or directory''))\<rparr>"

definition exLoadersNoNFK :: loaders where
  "exLoadersNoNFK =
     exLoaders\<lparr>readNFKData := (\<lambda>path.
        Inl (''error opening file: open '' @ path @ '': no such file or directory''))\<rparr>"

definition backwards :: schedule where
  "backwards = \<lparr>range160 = rev, range214 = rev, range292 = rev, range301 = rev\<rparr>"

section \<open>What sort.Slice may do\<close>

lemma mset_insertBy: "mset (insertBy less' i js) = add_mset i (mset js)"
  by (induction js) simp_all

lemma mset_foldr_insertBy: "mset (foldr (insertBy less') xs []) = mset xs"
  by (induction xs) (simp_all add: mset_insertBy)

lemma set_insertBy: "set (insertBy less' i js) = insert i (set js)"
  by (induction js) auto

lemma sorted_insertBy:
  assumes "strictWeak n less'" "i < n" "\<forall>j\<in>set js. j < n"
    and "sorted_wrt (\<lambda>a b. \<not> less' b a) js"
  shows "sorted_wrt (\<lambda>a b. \<not> less' b a) (insertBy less' i js)"
  using assms(3,4)
proof (induction js)
  case Nil
  then show ?case by simp
next
  case (Cons j js)
  from assms(1) have asym: "\<And>a b. a < n \<Longrightarrow> b < n \<Longrightarrow> less' a b \<Longrightarrow> \<not> less' b a"
    and trans: "\<And>a b c. a < n \<Longrightarrow> b < n \<Longrightarrow> c < n \<Longrightarrow> \<not> less' b a \<Longrightarrow> \<not> less' c b \<Longrightarrow> \<not> less' c a"
    unfolding strictWeak_def by blast+
  from Cons.prems have jn: "j < n" and jsn: "\<forall>k\<in>set js. k < n"
    and hd: "\<forall>k\<in>set js. \<not> less' k j" and tl: "sorted_wrt (\<lambda>a b. \<not> less' b a) js"
    by simp_all
  show ?case
  proof (cases "less' j i")
    case True
    have "\<not> less' i j" using asym [OF jn assms(2) True] .
    with True hd Cons.IH [OF jsn tl] show ?thesis
      by (auto simp: set_insertBy)
  next
    case False
    have "\<forall>k\<in>set js. \<not> less' k i"
    proof
      fix k assume k: "k \<in> set js"
      with jsn have kn: "k < n" by simp
      from hd k have "\<not> less' k j" by simp
      from trans [OF assms(2) jn kn False this] show "\<not> less' k i" .
    qed
    with False hd tl show ?thesis by simp
  qed
qed

lemma sorted_foldr_insertBy:
  assumes "strictWeak n less'" "\<forall>i\<in>set xs. i < n"
  shows "sorted_wrt (\<lambda>a b. \<not> less' b a) (foldr (insertBy less') xs [])"
  using assms(2)
proof (induction xs)
  case Nil
  then show ?case by simp
next
  case (Cons x xs)
  have "\<forall>j\<in>set (foldr (insertBy less') xs []). j < n"
    using Cons.prems mset_foldr_insertBy [of less' xs] by (metis list.set_intros(2) set_mset_mset)
  with Cons show ?case
    by (simp add: sorted_insertBy [OF assms(1)])
qed

lemma sortSliceContract_stableSlice: "sortSliceContract stableSlice"
  by (simp add: sortSliceContract_def stableSlice_def mset_foldr_insertBy sorted_foldr_insertBy)

lemma sortSliceContract_tiesReversed: "sortSliceContract tiesReversed"
  by (simp add: sortSliceContract_def tiesReversed_def mset_foldr_insertBy sorted_foldr_insertBy)

lemma strictWeak_Number: "strictWeak n (\<lambda>i j. Number (xs ! i) < Number (xs ! j))"
  by (auto simp: strictWeak_def)

lemma contract_sortsByNumber:
  assumes "sortSliceContract f"
  shows "sortsByNumber f"
  unfolding sortsByNumber_def
proof (intro allI conjI)
  fix xs :: "Entry list"
  let ?less = "\<lambda>i j. Number (xs ! i) < Number (xs ! j)"
  let ?p = "f (length xs) ?less"
  from assms have p: "mset ?p = mset [0..<length xs]"
    and s: "sorted_wrt (\<lambda>i j. \<not> ?less j i) ?p"
    unfolding sortSliceContract_def using strictWeak_Number [of "length xs" xs] by blast+
  have "mset (map (\<lambda>i. xs ! i) ?p) = image_mset (\<lambda>i. xs ! i) (mset [0..<length xs])"
    using p by (metis mset_map)
  also have "\<dots> = mset (map (\<lambda>i. xs ! i) [0..<length xs])" by simp
  also have "\<dots> = mset xs" by (simp add: map_nth)
  finally show "mset (sortAppendix f xs) = mset xs" by (simp add: sortAppendix_def)
  from s have "sorted_wrt (\<lambda>i j. Number (xs ! i) \<le> Number (xs ! j)) ?p"
    by (simp add: not_less)
  then show "sorted (map Number (sortAppendix f xs))"
    by (simp add: sortAppendix_def sorted_wrt_map comp_def)
qed

lemma sortsByNumber_stableSlice: "sortsByNumber stableSlice"
  by (rule contract_sortsByNumber [OF sortSliceContract_stableSlice])

lemma sortsByNumber_tiesReversed: "sortsByNumber tiesReversed"
  by (rule contract_sortsByNumber [OF sortSliceContract_tiesReversed])

lemma sortsByNumber_set: "sortsByNumber f \<Longrightarrow> set (sortAppendix f xs) = set xs"
  unfolding sortsByNumber_def by (metis set_mset_mset)

lemma sortsByNumber_Nil: "sortsByNumber f \<Longrightarrow> sortAppendix f [] = []"
  unfolding sortsByNumber_def by (metis mset_zero_iff)

section \<open>Hexadecimal keys: what is written can be read back\<close>

lemma hexDigitVal_hexDigit: "d < 16 \<Longrightarrow> hexDigitVal (hexDigit d) = Some d"
proof -
  assume "d < 16"
  then have "d \<in> {0,1,2,3,4,5,6,7,8,9,10,11,12,13,14,15}" by simp arith
  then show ?thesis
    by (auto simp: hexDigit_def hexDigitVal_def)
qed

lemma hexDigit_not_minus: "d < 16 \<Longrightarrow> hexDigit d \<noteq> CHR ''-'' \<and> hexDigit d \<noteq> CHR ''+''"
proof -
  assume "d < 16"
  then have "d \<in> {0,1,2,3,4,5,6,7,8,9,10,11,12,13,14,15}" by simp arith
  then show ?thesis
    by (auto simp: hexDigit_def)
qed

lemma parseDigits_append:
  "parseDigits n (xs @ ys) = (case parseDigits n xs of None \<Rightarrow> None | Some m \<Rightarrow> parseDigits m ys)"
  by (induction xs arbitrary: n) (auto split: option.splits)

lemma parseDigits_hexUpper: "parseDigits 0 (hexUpper m) = Some m"
proof (induction m rule: hexUpper.induct)
  case (1 n)
  show ?case
  proof (cases "n < 16")
    case True
    then show ?thesis
      by (subst hexUpper.simps) (simp add: hexDigitVal_hexDigit)
  next
    case False
    with 1 have "parseDigits 0 (hexUpper (n div 16)) = Some (n div 16)" by simp
    with False show ?thesis
      by (subst hexUpper.simps) (simp add: parseDigits_append hexDigitVal_hexDigit)
  qed
qed

lemma hexDigitVal_zero: "hexDigitVal CHR ''0'' = Some 0"
  by (simp add: hexDigitVal_def)

lemma parseDigits_zeros: "parseDigits 0 (replicate k CHR ''0'' @ s) = parseDigits 0 s"
  by (induction k) (simp_all add: hexDigitVal_zero)

lemma hexUpper_hd: "\<exists>d cs. d < 16 \<and> hexUpper m = hexDigit d # cs"
proof (induction m rule: hexUpper.induct)
  case (1 n)
  show ?case
  proof (cases "n < 16")
    case True
    then show ?thesis by (subst hexUpper.simps) auto
  next
    case False
    with 1 obtain d cs where "d < 16" "hexUpper (n div 16) = hexDigit d # cs" by auto
    with False show ?thesis by (subst hexUpper.simps) auto
  qed
qed

lemma padZero_hexUpper_hd:
  "\<exists>c cs. padZero w (hexUpper m) = c # cs \<and> c \<noteq> CHR ''-'' \<and> c \<noteq> CHR ''+''"
proof -
  obtain d cs where d: "d < 16" "hexUpper m = hexDigit d # cs"
    using hexUpper_hd by blast
  show ?thesis
  proof (cases "w - length (hexUpper m)")
    case 0
    with d show ?thesis by (simp add: padZero_def hexDigit_not_minus)
  next
    case (Suc k)
    then show ?thesis by (simp add: padZero_def)
  qed
qed

lemma parseUint16_padZero: "parseUint16 (padZero w (hexUpper m)) = Some m"
proof -
  obtain c cs where "padZero w (hexUpper m) = c # cs"
    using padZero_hexUpper_hd by blast
  then have "padZero w (hexUpper m) \<noteq> []" by simp
  then show ?thesis
    by (simp add: parseUint16_def) (simp add: padZero_def parseDigits_zeros parseDigits_hexUpper)
qed

lemma unfmt_fmt04X: "unfmt (fmt04X n) = n"
proof (cases "n < 0")
  case True
  then show ?thesis by (simp add: unfmt_def fmt04X_def parseUint16_padZero)
next
  case False
  obtain c cs where c: "padZero 4 (hexUpper (nat n)) = c # cs" "c \<noteq> CHR ''-''"
    using padZero_hexUpper_hd by blast
  have "parseUint16 (c # cs) = Some (nat n)"
    using parseUint16_padZero [of 4 "nat n"] c by simp
  with False c show ?thesis by (simp add: unfmt_def fmt04X_def)
qed

lemma fmt04X_inject: "fmt04X a = fmt04X b \<longleftrightarrow> a = b"
  using unfmt_fmt04X by metis

lemma parseInt16_32_fmt04X:
  "parseInt16_32 (fmt04X n) = (if - 2147483648 \<le> n \<and> n < 2147483648 then Some n else None)"
proof (cases "n < 0")
  case True
  then show ?thesis
    by (auto simp: parseInt16_32_def fmt04X_def parseUint16_padZero)
next
  case False
  obtain c cs where c: "padZero 4 (hexUpper (nat n)) = c # cs" "c \<noteq> CHR ''-''" "c \<noteq> CHR ''+''"
    using padZero_hexUpper_hd by blast
  have "parseUint16 (c # cs) = Some (nat n)"
    using parseUint16_padZero [of 4 "nat n"] c by simp
  with False c show ?thesis by (auto simp: parseInt16_32_def fmt04X_def)
qed

lemma hexToInt_fmt04X:
  "hexToInt (fmt04X n) = (if - 2147483648 \<le> n \<and> n < 2147483648 then Inr n
                          else Inl (''Invalid hex string: '' @ fmt04X n))"
  by (simp add: hexToInt_def parseInt16_32_fmt04X)

lemma hexToInt_range: "hexToInt k = Inr n \<Longrightarrow> - 2147483648 \<le> n \<and> n < 2147483648"
  by (auto simp: hexToInt_def parseInt16_32_def Let_def split: option.splits list.splits if_splits)



section \<open>The loops of Appendix A to E, field by field\<close>

lemma printf_sel [simp]:
  "stdout (printf t s) = stdout s @ [Printed t]"
  "buffer (printf t s) = buffer s"
  "appendix (printf t s) = appendix s"
  "numAppendixA (printf t s) = numAppendixA s"
  "numAppendixB (printf t s) = numAppendixB s"
  "numAppendixC (printf t s) = numAppendixC s"
  "numAppendixD (printf t s) = numAppendixD s"
  "numAppendixE (printf t s) = numAppendixE s"
  "properties2 (printf t s) = properties2 s"
  "changeCounts (printf t s) = changeCounts s"
  "noChangeFromOtherNFK (printf t s) = noChangeFromOtherNFK s"
  by (simp_all add: printf_def)

lemma fprintf_sel [simp]:
  "stdout (fprintf t s) = stdout s"
  "buffer (fprintf t s) = buffer s @ [t]"
  "appendix (fprintf t s) = appendix s"
  "numAppendixA (fprintf t s) = numAppendixA s"
  "numAppendixB (fprintf t s) = numAppendixB s"
  "numAppendixC (fprintf t s) = numAppendixC s"
  "numAppendixD (fprintf t s) = numAppendixD s"
  "numAppendixE (fprintf t s) = numAppendixE s"
  "properties2 (fprintf t s) = properties2 s"
  "changeCounts (fprintf t s) = changeCounts s"
  "noChangeFromOtherNFK (fprintf t s) = noChangeFromOtherNFK s"
  by (simp_all add: fprintf_def)

lemma stepA_sel:
  "properties2 (stepA p1 names cp s) = properties2 s"
  "numAppendixB (stepA p1 names cp s) = numAppendixB s"
  "numAppendixC (stepA p1 names cp s) = numAppendixC s"
  "numAppendixD (stepA p1 names cp s) = numAppendixD s"
  "numAppendixA (stepA p1 names cp s) =
     numAppendixA s + (if categoryA p1 (properties2 s) cp then 1 else 0)"
  "numAppendixE (stepA p1 names cp s) =
     numAppendixE s + (if categoryA p1 (properties2 s) cp then 1 else 0)"
  "appendix (stepA p1 names cp s) =
     appendix s @ (if categoryA p1 (properties2 s) cp then [flag names cp] else [])"
  "buffer (stepA p1 names cp s) =
     buffer s @ (if categoryA p1 (properties2 s) cp
                 then (if numAppendixA s = 0 then [''# Code point; Old; New; Name\<newline>''] else [])
                      @ [lineA p1 (properties2 s) names cp]
                 else [])"
  "changeCounts (stepA p1 names cp s) =
     (if strictChange p1 (properties2 s) cp
      then AList.update (changeKey p1 (properties2 s) cp)
             (indexInt (changeCounts s) (changeKey p1 (properties2 s) cp) + 1) (changeCounts s)
      else changeCounts s)"
  by (simp_all add: stepA_def Let_def categoryA_def strictChange_def lineA_def flag_def
        changeKey_def index_def split: option.splits)

lemma foldA_properties2 [simp]: "properties2 (fold (stepA p1 names) cps s) = properties2 s"
  by (induction cps arbitrary: s) (simp_all add: stepA_sel)

lemma foldA_numAppendixA:
  "numAppendixA (fold (stepA p1 names) cps s) =
     numAppendixA s + int (length (filter (categoryA p1 (properties2 s)) cps))"
  by (induction cps arbitrary: s) (simp_all add: stepA_sel)

lemma foldA_numAppendixE:
  "numAppendixE (fold (stepA p1 names) cps s) =
     numAppendixE s + int (length (filter (categoryA p1 (properties2 s)) cps))"
  by (induction cps arbitrary: s) (simp_all add: stepA_sel)

lemma foldA_others [simp]:
  "numAppendixB (fold (stepA p1 names) cps s) = numAppendixB s"
  "numAppendixC (fold (stepA p1 names) cps s) = numAppendixC s"
  "numAppendixD (fold (stepA p1 names) cps s) = numAppendixD s"
  by (induction cps arbitrary: s) (simp_all add: stepA_sel)

lemma foldA_appendix:
  "appendix (fold (stepA p1 names) cps s) =
     appendix s @ map (flag names) (filter (categoryA p1 (properties2 s)) cps)"
  by (induction cps arbitrary: s) (simp_all add: stepA_sel)

lemma foldA_buffer:
  "0 \<le> numAppendixA s \<Longrightarrow>
   buffer (fold (stepA p1 names) cps s) =
     buffer s
     @ (if numAppendixA s = 0 \<and> filter (categoryA p1 (properties2 s)) cps \<noteq> []
        then [''# Code point; Old; New; Name\<newline>''] else [])
     @ map (lineA p1 (properties2 s) names) (filter (categoryA p1 (properties2 s)) cps)"
proof (induction cps arbitrary: s)
  case Nil
  then show ?case by simp
next
  case (Cons cp cps)
  have "0 \<le> numAppendixA (stepA p1 names cp s)"
    using Cons.prems by (simp add: stepA_sel)
  from Cons.IH [OF this] Cons.prems show ?case
    by (simp add: stepA_sel)
qed

lemma sum_update_incr:
  "sum_list (map snd (AList.update k (indexInt cc k + 1) cc)) = sum_list (map snd cc) + 1"
  by (induction cc) (auto simp: indexInt_def)

lemma foldA_total:
  "sum_list (map snd (changeCounts (fold (stepA p1 names) cps s))) =
     sum_list (map snd (changeCounts s))
     + int (length (filter (strictChange p1 (properties2 s)) cps))"
  by (induction cps arbitrary: s) (simp_all add: stepA_sel sum_update_incr)

lemma indexInt_update:
  "indexInt (AList.update k v cc) k' = (if k' = k then v else indexInt cc k')"
  by (simp add: indexInt_def update_conv')

lemma foldA_tally:
  "indexInt (changeCounts (fold (stepA p1 names) cps s)) key =
     indexInt (changeCounts s) key
     + int (length (filter (\<lambda>cp. strictChange p1 (properties2 s) cp
                                  \<and> changeKey p1 (properties2 s) cp = key) cps))"
  by (induction cps arbitrary: s) (auto simp: stepA_sel indexInt_update)



lemma stepB_sel:
  "properties2 (stepB p1 names gc1 gc2 cp s) = properties2 s"
  "numAppendixA (stepB p1 names gc1 gc2 cp s) = numAppendixA s"
  "numAppendixC (stepB p1 names gc1 gc2 cp s) = numAppendixC s"
  "numAppendixD (stepB p1 names gc1 gc2 cp s) = numAppendixD s"
  "numAppendixE (stepB p1 names gc1 gc2 cp s) = numAppendixE s"
  "changeCounts (stepB p1 names gc1 gc2 cp s) = changeCounts s"
  "appendix (stepB p1 names gc1 gc2 cp s) = appendix s"
  "numAppendixB (stepB p1 names gc1 gc2 cp s) =
     numAppendixB s + (if categoryB p1 (properties2 s) gc1 gc2 cp then 1 else 0)"
  "buffer (stepB p1 names gc1 gc2 cp s) =
     buffer s @ (if categoryB p1 (properties2 s) gc1 gc2 cp
                 then (if numAppendixB s = 0
                       then [''# Code point; Old GC; New GC; Name\<newline>\<newline>''] else [])
                      @ [lineB gc1 gc2 names cp]
                 else [])"
  by (simp_all add: stepB_def Let_def categoryB_def lineB_def split: option.splits)

lemma foldB_sel [simp]:
  "properties2 (fold (stepB p1 names gc1 gc2) cps s) = properties2 s"
  "numAppendixA (fold (stepB p1 names gc1 gc2) cps s) = numAppendixA s"
  "numAppendixC (fold (stepB p1 names gc1 gc2) cps s) = numAppendixC s"
  "numAppendixD (fold (stepB p1 names gc1 gc2) cps s) = numAppendixD s"
  "numAppendixE (fold (stepB p1 names gc1 gc2) cps s) = numAppendixE s"
  "changeCounts (fold (stepB p1 names gc1 gc2) cps s) = changeCounts s"
  "appendix (fold (stepB p1 names gc1 gc2) cps s) = appendix s"
  by (induction cps arbitrary: s) (simp_all add: stepB_sel)

lemma foldB_numAppendixB:
  "numAppendixB (fold (stepB p1 names gc1 gc2) cps s) =
     numAppendixB s + int (length (filter (categoryB p1 (properties2 s) gc1 gc2) cps))"
  by (induction cps arbitrary: s) (simp_all add: stepB_sel)

lemma foldB_buffer:
  "0 \<le> numAppendixB s \<Longrightarrow>
   buffer (fold (stepB p1 names gc1 gc2) cps s) =
     buffer s
     @ (if numAppendixB s = 0 \<and> filter (categoryB p1 (properties2 s) gc1 gc2) cps \<noteq> []
        then [''# Code point; Old GC; New GC; Name\<newline>\<newline>''] else [])
     @ map (lineB gc1 gc2 names) (filter (categoryB p1 (properties2 s) gc1 gc2) cps)"
proof (induction cps arbitrary: s)
  case Nil
  then show ?case by simp
next
  case (Cons cp cps)
  have "0 \<le> numAppendixB (stepB p1 names gc1 gc2 cp s)"
    using Cons.prems by (simp add: stepB_sel)
  from Cons.IH [OF this] Cons.prems show ?case
    by (simp add: stepB_sel)
qed

lemma stepC_sel:
  "properties2 (stepC names gc1 gc2 cp s) = properties2 s"
  "numAppendixA (stepC names gc1 gc2 cp s) = numAppendixA s"
  "numAppendixB (stepC names gc1 gc2 cp s) = numAppendixB s"
  "numAppendixD (stepC names gc1 gc2 cp s) = numAppendixD s"
  "changeCounts (stepC names gc1 gc2 cp s) = changeCounts s"
  "numAppendixC (stepC names gc1 gc2 cp s) =
     numAppendixC s + (if categoryC (properties2 s) gc1 gc2 cp then 1 else 0)"
  "numAppendixE (stepC names gc1 gc2 cp s) =
     numAppendixE s + (if categoryC (properties2 s) gc1 gc2 cp then 1 else 0)"
  "appendix (stepC names gc1 gc2 cp s) =
     appendix s @ (if categoryC (properties2 s) gc1 gc2 cp then [flag names cp] else [])"
  "buffer (stepC names gc1 gc2 cp s) =
     buffer s @ (if categoryC (properties2 s) gc1 gc2 cp
                 then (if numAppendixC s = 0 then [''# Code point; Name\<newline>''] else [])
                      @ [lineC names cp]
                 else [])"
  by (simp_all add: stepC_def Let_def categoryC_def lineC_def flag_def)

lemma foldC_sel [simp]:
  "properties2 (fold (stepC names gc1 gc2) cps s) = properties2 s"
  "numAppendixA (fold (stepC names gc1 gc2) cps s) = numAppendixA s"
  "numAppendixB (fold (stepC names gc1 gc2) cps s) = numAppendixB s"
  "numAppendixD (fold (stepC names gc1 gc2) cps s) = numAppendixD s"
  "changeCounts (fold (stepC names gc1 gc2) cps s) = changeCounts s"
  by (induction cps arbitrary: s) (simp_all add: stepC_sel)

lemma foldC_numAppendixC:
  "numAppendixC (fold (stepC names gc1 gc2) cps s) =
     numAppendixC s + int (length (filter (categoryC (properties2 s) gc1 gc2) cps))"
  by (induction cps arbitrary: s) (simp_all add: stepC_sel)

lemma foldC_numAppendixE:
  "numAppendixE (fold (stepC names gc1 gc2) cps s) =
     numAppendixE s + int (length (filter (categoryC (properties2 s) gc1 gc2) cps))"
  by (induction cps arbitrary: s) (simp_all add: stepC_sel)

lemma foldC_appendix:
  "appendix (fold (stepC names gc1 gc2) cps s) =
     appendix s @ map (flag names) (filter (categoryC (properties2 s) gc1 gc2) cps)"
  by (induction cps arbitrary: s) (simp_all add: stepC_sel)

lemma foldC_buffer:
  "0 \<le> numAppendixC s \<Longrightarrow>
   buffer (fold (stepC names gc1 gc2) cps s) =
     buffer s
     @ (if numAppendixC s = 0 \<and> filter (categoryC (properties2 s) gc1 gc2) cps \<noteq> []
        then [''# Code point; Name\<newline>''] else [])
     @ map (lineC names) (filter (categoryC (properties2 s) gc1 gc2) cps)"
proof (induction cps arbitrary: s)
  case Nil
  then show ?case by simp
next
  case (Cons cp cps)
  have "0 \<le> numAppendixC (stepC names gc1 gc2 cp s)"
    using Cons.prems by (simp add: stepC_sel)
  from Cons.IH [OF this] Cons.prems show ?case
    by (simp add: stepC_sel)
qed

lemma stepD_Inr:
  assumes "int32 cp"
  shows "\<exists>s'. stepD p1 names nfk1 nfk2 cp s = Inr s'
           \<and> properties2 s' = properties2 s
           \<and> numAppendixA s' = numAppendixA s \<and> numAppendixB s' = numAppendixB s
           \<and> numAppendixC s' = numAppendixC s \<and> changeCounts s' = changeCounts s
           \<and> numAppendixD s' = numAppendixD s
                + (if categoryD p1 (properties2 s) nfk2 cp then 1 else 0)
           \<and> numAppendixE s' = numAppendixE s
                + (if categoryD p1 (properties2 s) nfk2 cp then 1 else 0)
           \<and> appendix s' = appendix s
                @ (if categoryD p1 (properties2 s) nfk2 cp then [flag names cp] else [])
           \<and> buffer s' = buffer s
                @ (if categoryD p1 (properties2 s) nfk2 cp then [lineD nfk2 names cp] else [])"
  using assms
  by (simp add: stepD_def Let_def categoryD_def lineD_def flag_def hexToInt_fmt04X int32_def
        split: option.splits)

lemma loopD_Inr:
  assumes "\<forall>cp\<in>set cps. int32 cp"
  shows "\<exists>s'. loopD p1 names nfk1 nfk2 cps s = Inr s'
           \<and> properties2 s' = properties2 s
           \<and> numAppendixA s' = numAppendixA s \<and> numAppendixB s' = numAppendixB s
           \<and> numAppendixC s' = numAppendixC s \<and> changeCounts s' = changeCounts s
           \<and> numAppendixD s' = numAppendixD s
                + int (length (filter (categoryD p1 (properties2 s) nfk2) cps))
           \<and> numAppendixE s' = numAppendixE s
                + int (length (filter (categoryD p1 (properties2 s) nfk2) cps))
           \<and> appendix s' = appendix s
                @ map (flag names) (filter (categoryD p1 (properties2 s) nfk2) cps)
           \<and> buffer s' = buffer s
                @ map (lineD nfk2 names) (filter (categoryD p1 (properties2 s) nfk2) cps)"
  using assms
proof (induction cps arbitrary: s)
  case Nil
  then show ?case by simp
next
  case (Cons cp cps)
  from Cons.prems have cp: "int32 cp" and rest: "\<forall>cp\<in>set cps. int32 cp" by simp_all
  from stepD_Inr [OF cp, of p1 names nfk1 nfk2 s] obtain s1 where s1:
    "stepD p1 names nfk1 nfk2 cp s = Inr s1"
    "properties2 s1 = properties2 s"
    "numAppendixA s1 = numAppendixA s" "numAppendixB s1 = numAppendixB s"
    "numAppendixC s1 = numAppendixC s" "changeCounts s1 = changeCounts s"
    "numAppendixD s1 = numAppendixD s + (if categoryD p1 (properties2 s) nfk2 cp then 1 else 0)"
    "numAppendixE s1 = numAppendixE s + (if categoryD p1 (properties2 s) nfk2 cp then 1 else 0)"
    "appendix s1 = appendix s @ (if categoryD p1 (properties2 s) nfk2 cp then [flag names cp] else [])"
    "buffer s1 = buffer s @ (if categoryD p1 (properties2 s) nfk2 cp then [lineD nfk2 names cp] else [])"
    by blast
  from Cons.IH [OF rest, of s1] obtain s2 where s2:
    "loopD p1 names nfk1 nfk2 cps s1 = Inr s2"
    "properties2 s2 = properties2 s1"
    "numAppendixA s2 = numAppendixA s1" "numAppendixB s2 = numAppendixB s1"
    "numAppendixC s2 = numAppendixC s1" "changeCounts s2 = changeCounts s1"
    "numAppendixD s2 = numAppendixD s1 + int (length (filter (categoryD p1 (properties2 s1) nfk2) cps))"
    "numAppendixE s2 = numAppendixE s1 + int (length (filter (categoryD p1 (properties2 s1) nfk2) cps))"
    "appendix s2 = appendix s1 @ map (flag names) (filter (categoryD p1 (properties2 s1) nfk2) cps)"
    "buffer s2 = buffer s1 @ map (lineD nfk2 names) (filter (categoryD p1 (properties2 s1) nfk2) cps)"
    by blast
  show ?case
    using s1 s2 by simp
qed



lemma stepE_sel:
  "properties2 (stepE e s) = AList.update (fmt04X (Number e)) ''UNDER REVIEW'' (properties2 s)"
  "buffer (stepE e s) = buffer s @ [Name e @ ''\<newline>'']"
  "appendix (stepE e s) = appendix s"
  "stdout (stepE e s) = stdout s"
  "numAppendixE (stepE e s) = numAppendixE s"
  by (simp_all add: stepE_def Let_def)

lemma foldE_sel [simp]:
  "appendix (fold stepE es s) = appendix s"
  "stdout (fold stepE es s) = stdout s"
  "numAppendixE (fold stepE es s) = numAppendixE s"
  by (induction es arbitrary: s) (simp_all add: stepE_sel)

lemma foldE_buffer:
  "buffer (fold stepE es s) = buffer s @ map (\<lambda>e. Name e @ ''\<newline>'') es"
  by (induction es arbitrary: s) (simp_all add: stepE_sel)

lemma foldE_properties2:
  "map_of (properties2 (fold stepE es s)) k =
     (if k \<in> (\<lambda>e. fmt04X (Number e)) ` set es then Some ''UNDER REVIEW''
      else map_of (properties2 s) k)"
  by (induction es arbitrary: s) (auto simp: stepE_sel update_conv')

lemma foldE_Nil_properties2: "properties2 (fold stepE [] s) = properties2 s"
  by simp

lemma foldE_properties2_fold:
  "properties2 (fold stepE es s) =
     fold (\<lambda>e. AList.update (fmt04X (Number e)) ''UNDER REVIEW'') es (properties2 s)"
  by (induction es arbitrary: s) (simp_all add: stepE_sel)

lemma appendixE_properties2:
  "properties2 (appendixE f s) = properties2 (fold stepE (sortAppendix f (appendix s)) s)"
  by (simp add: appendixE_def Let_def foldE_properties2_fold)

lemma appendixE_lookup:
  assumes "sortsByNumber f"
  shows "map_of (properties2 (appendixE f s)) k =
     (if k \<in> (\<lambda>e. fmt04X (Number e)) ` set (appendix s) then Some ''UNDER REVIEW''
      else map_of (properties2 s) k)"
  by (simp add: appendixE_properties2 foldE_properties2 sortsByNumber_set [OF assms])

lemma appendixA_buffer:
  assumes "numAppendixA s = 0"
  shows "buffer (appendixA old names cps s) =
     buffer s
     @ [''\<newline>Appendix A: Code points that changed derived property values\<newline>\<newline>'']
     @ (if filter (categoryA old (properties2 s)) cps = []
        then [''# No change in derived property value except from UNASSIGED\<newline>'']
        else ''# Code point; Old; New; Name\<newline>''
             # map (lineA old (properties2 s) names) (filter (categoryA old (properties2 s)) cps))"
  using assms
  by (simp add: appendixA_def Let_def foldA_buffer foldA_numAppendixA)

lemma appendixA_sel:
  "appendix (appendixA old names cps s) =
     appendix s @ map (flag names) (filter (categoryA old (properties2 s)) cps)"
  "properties2 (appendixA old names cps s) = properties2 s"
  "numAppendixA (appendixA old names cps s) =
     numAppendixA s + int (length (filter (categoryA old (properties2 s)) cps))"
  "numAppendixE (appendixA old names cps s) =
     numAppendixE s + int (length (filter (categoryA old (properties2 s)) cps))"
  "numAppendixB (appendixA old names cps s) = numAppendixB s"
  "numAppendixC (appendixA old names cps s) = numAppendixC s"
  "numAppendixD (appendixA old names cps s) = numAppendixD s"
  by (simp_all add: appendixA_def Let_def foldA_appendix foldA_numAppendixA foldA_numAppendixE)

lemma indexInt_Nil: "indexInt [] k = 0"
  by (simp add: indexInt_def)

lemma appendixA_tally:
  "indexInt (changeCounts (appendixA old names cps s)) key =
     int (length (filter (\<lambda>cp. strictChange old (properties2 s) cp
                                \<and> changeKey old (properties2 s) cp = key) cps))"
  "sum_list (map snd (changeCounts (appendixA old names cps s))) =
     int (length (filter (strictChange old (properties2 s)) cps))"
  by (simp_all add: appendixA_def Let_def foldA_tally foldA_total indexInt_Nil)

lemma ex_keys:
  "fmt04X 65 = ''0041''" "fmt04X 66 = ''0042''" "fmt04X 67 = ''0043''"
  "fmt04X 68 = ''0044''" "fmt04X 69 = ''0045''"
  by code_simp+

lemma exState_sel:
  "properties2 exState = exNew" "numAppendixA exState = 0" "numAppendixB exState = 0"
  "numAppendixC exState = 0" "numAppendixD exState = 0" "numAppendixE exState = 0"
  "buffer exState = []" "appendix exState = []" "stdout exState = []"
  by (simp_all add: exState_def initial_def)

lemma ex_categoryA: "filter (categoryA exOld exNew) [65, 66, 67, 68, 69] = [65]"
  by (simp add: categoryA_def ex_keys exOld_def exNew_def index_def)

lemma appendixB_buffer:
  assumes "numAppendixB s = 0"
  shows "buffer (appendixB old names gc1 gc2 cps s) =
     buffer s
     @ [''\<newline>\<newline>Appendix B: Changes in General Category\<newline>\<newline>'']
     @ (if filter (categoryB old (properties2 s) gc1 gc2) cps = []
        then [''# No changes in General Category detected\<newline>'']
        else ''# Code point; Old GC; New GC; Name\<newline>\<newline>''
             # map (lineB gc1 gc2 names) (filter (categoryB old (properties2 s) gc1 gc2) cps))"
  using assms
  by (simp add: appendixB_def Let_def foldB_buffer foldB_numAppendixB)

lemma appendixB_sel:
  "appendix (appendixB old names gc1 gc2 cps s) = appendix s"
  "properties2 (appendixB old names gc1 gc2 cps s) = properties2 s"
  "numAppendixA (appendixB old names gc1 gc2 cps s) = numAppendixA s"
  "numAppendixC (appendixB old names gc1 gc2 cps s) = numAppendixC s"
  "numAppendixD (appendixB old names gc1 gc2 cps s) = numAppendixD s"
  "numAppendixE (appendixB old names gc1 gc2 cps s) = numAppendixE s"
  by (simp_all add: appendixB_def Let_def)

lemma ex_categoryB: "filter (categoryB exOld exNew exOldGC exNewGC) [65, 66, 67, 68, 69] = [65, 68]"
  by (simp add: categoryB_def ex_keys exOld_def exNew_def exOldGC_def exNewGC_def index_def)

lemma appendixD_Inr:
  assumes "\<forall>cp\<in>set cps. int32 cp"
  shows "\<exists>s'. appendixD old names nfk1 nfk2 cps s = Inr s'
           \<and> properties2 s' = properties2 s
           \<and> numAppendixA s' = numAppendixA s \<and> numAppendixB s' = numAppendixB s
           \<and> numAppendixC s' = numAppendixC s \<and> changeCounts s' = changeCounts s
           \<and> numAppendixD s' = numAppendixD s
                + int (length (filter (categoryD old (properties2 s) nfk2) cps))
           \<and> numAppendixE s' = numAppendixE s
                + int (length (filter (categoryD old (properties2 s) nfk2) cps))
           \<and> appendix s' = appendix s
                @ map (flag names) (filter (categoryD old (properties2 s) nfk2) cps)
           \<and> buffer s' = buffer s
                @ map (lineD nfk2 names) (filter (categoryD old (properties2 s) nfk2) cps)
                @ (if numAppendixD s
                      + int (length (filter (categoryD old (properties2 s) nfk2) cps)) = 0
                   then [''# No new code points with length of NFK greater than one\<newline>'']
                   else [])"
proof -
  from loopD_Inr [OF assms, of old names nfk1 nfk2 "s\<lparr>noChangeFromOtherNFK := True\<rparr>"]
  obtain s1 where s1:
    "loopD old names nfk1 nfk2 cps (s\<lparr>noChangeFromOtherNFK := True\<rparr>) = Inr s1"
    "properties2 s1 = properties2 s"
    "numAppendixA s1 = numAppendixA s" "numAppendixB s1 = numAppendixB s"
    "numAppendixC s1 = numAppendixC s" "changeCounts s1 = changeCounts s"
    "numAppendixD s1 = numAppendixD s + int (length (filter (categoryD old (properties2 s) nfk2) cps))"
    "numAppendixE s1 = numAppendixE s + int (length (filter (categoryD old (properties2 s) nfk2) cps))"
    "appendix s1 = appendix s @ map (flag names) (filter (categoryD old (properties2 s) nfk2) cps)"
    "buffer s1 = buffer s @ map (lineD nfk2 names) (filter (categoryD old (properties2 s) nfk2) cps)"
    by auto
  then show ?thesis
    by (simp add: appendixD_def Let_def)
qed

lemma ex_categoryD: "filter (categoryD exOld exNew exNewNFK) [65, 66, 67, 68, 69] = [66]"
  by (simp add: categoryD_def ex_keys exOld_def exNew_def exNewNFK_def index_def)

lemma ex_int32: "\<forall>cp\<in>set [65, 66, 67, 68, 69]. int32 cp"
  by (simp add: int32_def)

section \<open>The range compactor\<close>

lemma stepF_map:
  "stepF emit props cp (f, s, e, c, map (\<lambda>(s, e, c). emit s e c) w) =
     (case stepF rangeTriple props cp (f, s, e, c, w) of
        (f', s', e', c', w') \<Rightarrow> (f', s', e', c', map (\<lambda>(s, e, c). emit s e c) w'))"
  by (simp add: stepF_def Let_def rangeTriple_def)

lemma foldF_map:
  "fold (stepF emit props) cps (f, s, e, c, map (\<lambda>(s, e, c). emit s e c) w) =
     (case fold (stepF rangeTriple props) cps (f, s, e, c, w) of
        (f', s', e', c', w') \<Rightarrow> (f', s', e', c', map (\<lambda>(s, e, c). emit s e c) w'))"
proof (induction cps arbitrary: f s e c w)
  case Nil
  then show ?case by simp
next
  case (Cons cp cps)
  obtain f' s' e' c' w' where st: "stepF rangeTriple props cp (f, s, e, c, w) = (f', s', e', c', w')"
    by (metis prod_cases5)
  show ?case
    by (simp add: stepF_map st Cons.IH)
qed

lemma rangeCompactor_map:
  "rangeCompactor emit props cps =
     map (\<lambda>(s, e, c). emit s e c) (rangeCompactor rangeTriple props cps)"
proof -
  obtain f' s' e' c' w' where st:
    "fold (stepF rangeTriple props) cps (True, 0, 0, [], []) = (f', s', e', c', w')"
    by (metis prod_cases5)
  from foldF_map [of emit props cps True 0 0 "[]" "[]"] st
  show ?thesis
    by (simp add: rangeCompactor_def rangeTriple_def)
qed

lemma foldF_runsFrom:
  "(case fold (stepF rangeTriple props) cps (False, s, e, c, w) of
      (f', s', e', c', w') \<Rightarrow> w' @ [rangeTriple s' e' c']) =
     w @ runsFrom (\<lambda>cp. index props (fmt04X cp)) s e c cps"
  by (induction cps arbitrary: s e c w) (simp_all add: stepF_def Let_def rangeTriple_def)

lemma rangeCompactor_Nil: "rangeCompactor rangeTriple props [] = [(0, 0, [])]"
  by (simp add: rangeCompactor_def rangeTriple_def)

lemma rangeCompactor_Cons:
  "rangeCompactor rangeTriple props (x # xs) =
     runsFrom (\<lambda>cp. index props (fmt04X cp)) x x (index props (fmt04X x)) xs"
  using foldF_runsFrom [of props xs x x "index props (fmt04X x)" "[]"]
  by (simp add: rangeCompactor_def stepF_def Let_def)

lemma runsFrom_hd:
  "\<exists>e' rest. runsFrom t s e c xs = (s, e', c) # rest \<and> (sorted (e # xs) \<longrightarrow> e \<le> e')"
proof (induction xs arbitrary: e)
  case Nil
  then show ?case by simp
next
  case (Cons x xs)
  from Cons.IH [of x] obtain e' rest where
    "runsFrom t s x c xs = (s, e', c) # rest" "sorted (x # xs) \<longrightarrow> x \<le> e'" by blast
  then show ?case by auto
qed

lemma runsFrom_distinct_adj: "distinct_adj (map (\<lambda>(s, e, v). v) (runsFrom t s e c xs))"
proof (induction xs arbitrary: s e c)
  case Nil
  then show ?case by simp
next
  case (Cons x xs)
  show ?case
  proof (cases "t x = c")
    case True
    then show ?thesis using Cons.IH by simp
  next
    case False
    from runsFrom_hd [of t x x "t x" xs] obtain e' rest where
      r: "runsFrom t x x (t x) xs = (x, e', t x) # rest" by blast
    from Cons.IH [of x x "t x"] r False show ?thesis
      by (simp add: distinct_adj_Cons)
  qed
qed

lemma runsFrom_values:
  assumes "sorted (e # xs)" "s \<le> e" "t e = c" "\<forall>cp\<in>P. cp \<le> e \<and> (s \<le> cp \<longrightarrow> t cp = c)"
  shows "\<forall>(s', e', v')\<in>set (runsFrom t s e c xs).
           \<forall>cp\<in>P \<union> {e} \<union> set xs. s' \<le> cp \<and> cp \<le> e' \<longrightarrow> t cp = v'"
  using assms
proof (induction xs arbitrary: s e c P)
  case Nil
  then show ?case by auto
next
  case (Cons x xs)
  from Cons.prems have ex: "e \<le> x" and sx: "sorted (x # xs)" by simp_all
  show ?case
  proof (cases "t x = c")
    case True
    have "\<forall>(s', e', v')\<in>set (runsFrom t s x c xs).
            \<forall>cp\<in>(P \<union> {e}) \<union> {x} \<union> set xs. s' \<le> cp \<and> cp \<le> e' \<longrightarrow> t cp = v'"
    proof (rule Cons.IH)
      show "sorted (x # xs)" by (rule sx)
      show "s \<le> x" using Cons.prems(2) ex by simp
      show "t x = c" by (rule True)
      show "\<forall>cp\<in>P \<union> {e}. cp \<le> x \<and> (s \<le> cp \<longrightarrow> t cp = c)"
        using Cons.prems(3,4) ex by auto
    qed
    with True show ?thesis by (simp add: Un_commute Un_left_commute insert_commute)
  next
    case False
    have rest: "\<forall>(s', e', v')\<in>set (runsFrom t x x (t x) xs).
            \<forall>cp\<in>(P \<union> {e}) \<union> {x} \<union> set xs. s' \<le> cp \<and> cp \<le> e' \<longrightarrow> t cp = v'"
    proof (rule Cons.IH)
      show "sorted (x # xs)" by (rule sx)
      show "x \<le> x" by simp
      show "t x = t x" by simp
      show "\<forall>cp\<in>P \<union> {e}. cp \<le> x \<and> (x \<le> cp \<longrightarrow> t cp = t x)"
      proof
        fix cp assume "cp \<in> P \<union> {e}"
        with Cons.prems(4) have "cp \<le> e" by auto
        moreover from False Cons.prems(3) have "e \<noteq> x" by auto
        ultimately have "cp < x" using ex by simp
        then show "cp \<le> x \<and> (x \<le> cp \<longrightarrow> t cp = t x)" by simp
      qed
    qed
    have first: "\<forall>cp\<in>P \<union> {e} \<union> set (x # xs). s \<le> cp \<and> cp \<le> e \<longrightarrow> t cp = c"
    proof
      fix cp assume "cp \<in> P \<union> {e} \<union> set (x # xs)"
      then consider "cp \<in> P" | "cp = e" | "cp \<in> set (x # xs)" by blast
      then show "s \<le> cp \<and> cp \<le> e \<longrightarrow> t cp = c"
      proof cases
        case 1
        then show ?thesis using Cons.prems(4) by blast
      next
        case 2
        then show ?thesis using Cons.prems(3) by simp
      next
        case 3
        then have "e \<le> cp" using Cons.prems(1) by auto
        then show ?thesis using Cons.prems(3) by auto
      qed
    qed
    from False rest first show ?thesis
      by (simp add: Un_commute Un_left_commute insert_commute)
  qed
qed

lemma runsFrom_bounds:
  assumes "sorted (e # xs)" "s \<le> e"
  shows "\<forall>(s', e', v')\<in>set (runsFrom t s e c xs).
           s' \<le> e' \<and> s' \<in> {s} \<union> set xs \<and> e' \<in> {e} \<union> set xs"
  using assms
proof (induction xs arbitrary: s e c)
  case Nil
  then show ?case by simp
next
  case (Cons x xs)
  from Cons.prems have ex: "e \<le> x" and sx: "sorted (x # xs)" by simp_all
  show ?case
  proof (cases "t x = c")
    case True
    from Cons.IH [OF sx, of s c] Cons.prems(2) ex True show ?thesis by auto
  next
    case False
    from Cons.IH [OF sx, of x "t x"] Cons.prems(2) False show ?thesis by auto
  qed
qed

lemma runsFrom_cover:
  assumes "sorted (e # xs)" "s \<le> e"
  shows "\<forall>cp. cp \<in> set xs \<or> (s \<le> cp \<and> cp \<le> e)
           \<longrightarrow> (\<exists>(s', e', v')\<in>set (runsFrom t s e c xs). s' \<le> cp \<and> cp \<le> e')"
  using assms
proof (induction xs arbitrary: s e c)
  case Nil
  then show ?case by simp
next
  case (Cons x xs)
  from Cons.prems have ex: "e \<le> x" and sx: "sorted (x # xs)" by simp_all
  show ?case
  proof (cases "t x = c")
    case True
    from Cons.prems(2) ex have "s \<le> x" by simp
    from Cons.IH [OF sx this, of c] Cons.prems(2) ex True show ?thesis by fastforce
  next
    case False
    have "x \<le> x" by simp
    from Cons.IH [OF sx this, of "t x"] False show ?thesis by fastforce
  qed
qed

lemma runsFrom_separated:
  assumes "sorted (e # xs)" "s \<le> e" "t e = c"
  shows "sorted_wrt (\<lambda>(s1, e1, v1) (s2, e2, v2). e1 < s2) (runsFrom t s e c xs)"
  using assms
proof (induction xs arbitrary: s e c)
  case Nil
  then show ?case by simp
next
  case (Cons x xs)
  from Cons.prems have ex: "e \<le> x" and sx: "sorted (x # xs)" by simp_all
  show ?case
  proof (cases "t x = c")
    case True
    from Cons.IH [OF sx, of s c] Cons.prems(2) ex True show ?thesis by simp
  next
    case False
    with Cons.prems(3) have "e \<noteq> x" by auto
    with ex have lt: "e < x" by simp
    have b: "\<forall>(s', e', v')\<in>set (runsFrom t x x (t x) xs). s' \<in> {x} \<union> set xs"
      using runsFrom_bounds [OF sx, of x t "t x"] by auto
    have "\<forall>(s', e', v')\<in>set (runsFrom t x x (t x) xs). e < s'"
    proof (clarify)
      fix s' e' v' assume "(s', e', v') \<in> set (runsFrom t x x (t x) xs)"
      with b have "s' \<in> {x} \<union> set xs" by auto
      with sx have "x \<le> s'" by auto
      with lt show "e < s'" by simp
    qed
    with Cons.IH [OF sx, of x "t x"] False show ?thesis by auto
  qed
qed

lemma set_expand:
  "set (expand rs) = {(cp, v). \<exists>s e. (s, e, v) \<in> set rs \<and> s \<le> cp \<and> cp \<le> e}"
  by (fastforce simp: expand_def)

lemma sorted_hd_last:
  assumes "sorted (xs :: int list)" "x \<in> set xs"
  shows "hd xs \<le> x \<and> x \<le> last xs"
proof -
  from assms(2) obtain i where i: "i < length xs" "xs ! i = x"
    by (auto simp: in_set_conv_nth)
  then have ne: "xs \<noteq> []" by auto
  have "xs ! 0 \<le> xs ! i" using assms(1) i(1) by (simp add: sorted_iff_nth_mono)
  moreover have "xs ! i \<le> xs ! (length xs - 1)"
    using assms(1) i(1) by (simp add: sorted_iff_nth_mono)
  ultimately show ?thesis
    using i ne by (simp add: hd_conv_nth last_conv_nth)
qed

lemma rangeCompactor_values:
  assumes "sorted cps"
  shows "\<forall>(s, e, v)\<in>set (rangeCompactor rangeTriple props cps).
           \<forall>cp\<in>set cps. s \<le> cp \<and> cp \<le> e \<longrightarrow> index props (fmt04X cp) = v"
proof (cases cps)
  case Nil
  then show ?thesis by simp
next
  case (Cons x xs)
  have "\<forall>(s', e', v')\<in>set (runsFrom (\<lambda>cp. index props (fmt04X cp)) x x (index props (fmt04X x)) xs).
           \<forall>cp\<in>{} \<union> {x} \<union> set xs. s' \<le> cp \<and> cp \<le> e' \<longrightarrow> index props (fmt04X cp) = v'"
    by (rule runsFrom_values) (use assms Cons in simp_all)
  with Cons show ?thesis by (simp add: rangeCompactor_Cons)
qed

lemma rangeCompactor_distinct_adj:
  "Suc i < length (rangeCompactor rangeTriple props cps) \<Longrightarrow>
   snd (snd (rangeCompactor rangeTriple props cps ! i))
     \<noteq> snd (snd (rangeCompactor rangeTriple props cps ! Suc i))"
proof (cases cps)
  case Nil
  assume "Suc i < length (rangeCompactor rangeTriple props cps)"
  with Nil show ?thesis by (simp add: rangeCompactor_Nil)
next
  case (Cons x xs)
  assume i: "Suc i < length (rangeCompactor rangeTriple props cps)"
  let ?rs = "rangeCompactor rangeTriple props cps"
  have "distinct_adj (map (\<lambda>(s, e, v). v) ?rs)"
    using Cons by (simp add: rangeCompactor_Cons runsFrom_distinct_adj)
  then have "map (\<lambda>(s, e, v). v) ?rs ! i \<noteq> map (\<lambda>(s, e, v). v) ?rs ! Suc i"
    using i by (simp add: distinct_adj_conv_nth)
  with i show ?thesis by (simp add: case_prod_beta)
qed

lemma appendixF_buffer:
  "buffer (appendixF version2 cps s) =
     buffer s
     @ [''\<newline>Appendix F: Derived property values Unicode '' @ version2 @ ''\<newline>\<newline>'']
     @ map (\<lambda>(start, end', currentProperty). rangeLine start end' currentProperty)
         (rangeCompactor rangeTriple (properties2 s) cps)"
  by (simp add: appendixF_def Let_def rangeCompactor_map [of rangeLine])

lemma rangeCompactor_unique:
  assumes "sorted cps" "cp \<in> set cps"
  shows "\<exists>!i. i < length (rangeCompactor rangeTriple props cps)
           \<and> fst (rangeCompactor rangeTriple props cps ! i) \<le> cp
           \<and> cp \<le> fst (snd (rangeCompactor rangeTriple props cps ! i))"
proof -
  let ?t = "\<lambda>cp. index props (fmt04X cp)"
  let ?rs = "rangeCompactor rangeTriple props cps"
  from assms(2) obtain x xs where c: "cps = x # xs" by (cases cps) auto
  then have rs: "?rs = runsFrom ?t x x (?t x) xs" by (simp add: rangeCompactor_Cons)
  have sx: "sorted (x # xs)" using assms(1) c by simp
  have xx: "x \<le> x" by simp
  have sep: "sorted_wrt (\<lambda>(s1, e1, v1) (s2, e2, v2). e1 < s2) ?rs"
    unfolding rs by (rule runsFrom_separated [OF sx xx]) simp
  have bnd: "\<forall>(s', e', v')\<in>set ?rs. s' \<le> e'"
    using runsFrom_bounds [OF sx xx, of ?t "?t x"] unfolding rs by auto
  have "cp \<in> set xs \<or> (x \<le> cp \<and> cp \<le> x)" using assms(2) c by auto
  with runsFrom_cover [OF sx xx, of ?t "?t x"]
  have "\<exists>(s', e', v')\<in>set ?rs. s' \<le> cp \<and> cp \<le> e'" unfolding rs by blast
  then obtain i where i: "i < length ?rs" "fst (?rs ! i) \<le> cp" "cp \<le> fst (snd (?rs ! i))"
    by (auto simp: in_set_conv_nth)
  have uniq: "j = i" if j: "j < length ?rs" "fst (?rs ! j) \<le> cp" "cp \<le> fst (snd (?rs ! j))" for j
  proof (rule ccontr)
    assume "j \<noteq> i"
    then consider "i < j" | "j < i" by linarith
    then show False
    proof cases
      case 1
      with sep j(1) have "(\<lambda>(s1, e1, v1) (s2, e2, v2). e1 < s2) (?rs ! i) (?rs ! j)"
        by (simp add: sorted_wrt_iff_nth_less)
      then have "fst (snd (?rs ! i)) < fst (?rs ! j)" by (simp add: case_prod_beta)
      with i j show False by simp
    next
      case 2
      with sep i(1) have "(\<lambda>(s1, e1, v1) (s2, e2, v2). e1 < s2) (?rs ! j) (?rs ! i)"
        by (simp add: sorted_wrt_iff_nth_less)
      then have "fst (snd (?rs ! j)) < fst (?rs ! i)" by (simp add: case_prod_beta)
      with i j show False by simp
    qed
  qed
  from i uniq show ?thesis by blast
qed

lemma rangeCompactor_cover:
  assumes "sorted cps" "cp \<in> set cps"
  shows "\<exists>(s, e, v)\<in>set (rangeCompactor rangeTriple props cps). s \<le> cp \<and> cp \<le> e"
proof -
  from rangeCompactor_unique [OF assms, of props] obtain i where
    "i < length (rangeCompactor rangeTriple props cps)"
    "fst (rangeCompactor rangeTriple props cps ! i) \<le> cp"
    "cp \<le> fst (snd (rangeCompactor rangeTriple props cps ! i))" by blast
  then show ?thesis
    by (metis (mono_tags, lifting) case_prod_beta nth_mem)
qed

lemma rangeCompactor_ends:
  assumes "sorted cps" "cps \<noteq> []"
  shows "\<forall>(s, e, v)\<in>set (rangeCompactor rangeTriple props cps). s \<in> set cps \<and> e \<in> set cps"
proof -
  from assms(2) obtain x xs where c: "cps = x # xs" by (cases cps) auto
  have sx: "sorted (x # xs)" using assms(1) c by simp
  have xx: "x \<le> x" by simp
  from runsFrom_bounds [OF sx xx, of "\<lambda>cp. index props (fmt04X cp)" "index props (fmt04X x)"]
  show ?thesis unfolding c rangeCompactor_Cons by auto
qed

lemma expand_on_table:
  assumes "sorted cps"
  shows "{(cp, v). (cp, v) \<in> set (expand (rangeCompactor rangeTriple props cps)) \<and> cp \<in> set cps}
         = (\<lambda>cp. (cp, index props (fmt04X cp))) ` set cps"
proof (rule set_eqI, clarify)
  fix cp v
  let ?rs = "rangeCompactor rangeTriple props cps"
  show "((cp, v) \<in> {(cp, v). (cp, v) \<in> set (expand ?rs) \<and> cp \<in> set cps})
        = ((cp, v) \<in> (\<lambda>cp. (cp, index props (fmt04X cp))) ` set cps)"
  proof
    assume "(cp, v) \<in> {(cp, v). (cp, v) \<in> set (expand ?rs) \<and> cp \<in> set cps}"
    then obtain s e where r: "(s, e, v) \<in> set ?rs" "s \<le> cp" "cp \<le> e" and m: "cp \<in> set cps"
      by (auto simp: set_expand)
    with rangeCompactor_values [OF assms, of props] have "index props (fmt04X cp) = v" by blast
    with m show "(cp, v) \<in> (\<lambda>cp. (cp, index props (fmt04X cp))) ` set cps" by auto
  next
    assume "(cp, v) \<in> (\<lambda>cp. (cp, index props (fmt04X cp))) ` set cps"
    then have m: "cp \<in> set cps" and v: "v = index props (fmt04X cp)" by auto
    from rangeCompactor_cover [OF assms m, of props] obtain s e v' where
      r: "(s, e, v') \<in> set ?rs" "s \<le> cp" "cp \<le> e" by auto
    with rangeCompactor_values [OF assms, of props] m have "index props (fmt04X cp) = v'" by blast
    with r v m show "(cp, v) \<in> {(cp, v). (cp, v) \<in> set (expand ?rs) \<and> cp \<in> set cps}"
      by (auto simp: set_expand)
  qed
qed

lemma expand_within:
  assumes "sorted cps" "cps \<noteq> []" "(cp, v) \<in> set (expand (rangeCompactor rangeTriple props cps))"
  shows "hd cps \<le> cp \<and> cp \<le> last cps"
proof -
  from assms(3) obtain s e where
    r: "(s, e, v) \<in> set (rangeCompactor rangeTriple props cps)" "s \<le> cp" "cp \<le> e"
    by (auto simp: set_expand)
  with rangeCompactor_ends [OF assms(1,2), of props] have "s \<in> set cps" "e \<in> set cps" by auto
  with sorted_hd_last [OF assms(1)] have "hd cps \<le> s" "e \<le> last cps" by auto
  with r show ?thesis by simp
qed

lemma ex_hexToInt:
  "hexToInt ''0041'' = Inr 65" "hexToInt ''0042'' = Inr 66" "hexToInt ''0043'' = Inr 67"
  "hexToInt ''0044'' = Inr 68" "hexToInt ''0045'' = Inr 69"
  using hexToInt_fmt04X [of 65] hexToInt_fmt04X [of 66] hexToInt_fmt04X [of 67]
    hexToInt_fmt04X [of 68] hexToInt_fmt04X [of 69]
  by (simp_all add: ex_keys)

lemma ex_sorted: "sorted [65, 66, 67, 68, 69 :: int]"
  by simp

lemma ex_ranges:
  "rangeCompactor rangeTriple exNew [65, 66, 67, 68, 69] = [(65, 65, ''DISALLOWED''), (66, 69, ''PVALID'')]"
  by (simp add: rangeCompactor_def stepF_def rangeTriple_def ex_keys exNew_def index_def)

lemma ex_rangeLines:
  "rangeLine 65 65 ''DISALLOWED'' = ''U+0041; DISALLOWED\<newline>''"
  "rangeLine 66 69 ''PVALID'' = ''U+0042..U+0045; PVALID\<newline>''"
  by (simp_all add: rangeLine_def ex_keys)

lemma ex_dense: "\<forall>cp. hd [65, 66, 67, 68, 69 :: int] \<le> cp \<and> cp \<le> last [65, 66, 67, 68, 69]
                   \<longrightarrow> cp \<in> set [65, 66, 67, 68, 69]"
  by simp arith

lemma appendixE_properties2_fold:
  "properties2 (appendixE f s) =
     fold (\<lambda>e. AList.update (fmt04X (Number e)) ''UNDER REVIEW'') (sortAppendix f (appendix s))
       (properties2 s)"
  by (simp add: appendixE_properties2 foldE_properties2_fold)

lemma ex_appendixA_flags:
  "appendix (appendixA exOld exNames [65, 66, 67, 68, 69] exState) = [flag exNames 65]"
  unfolding appendixA_sel exState_sel ex_categoryA by simp

lemma ex_flag65: "Number (flag exNames 65) = 65"
  by (simp add: flag_def underReview_def)

lemma ex_dense_set:
  "{hd [65, 66, 67, 68, 69 :: int] .. last [65, 66, 67, 68, 69]} \<subseteq> set [65, 66, 67, 68, 69]"
  using ex_dense by (simp add: subset_iff)

lemma ex_int32_all: "list_all int32 [65, 66, 67, 68, 69]"
  by (simp add: int32_def)

lemma reports_append [simp]: "reports (xs @ ys) = reports xs @ reports ys"
  by (induction xs rule: reports.induct) simp_all

lemma reports_step:
  "reports (stdout (stepA p1 names cp s)) = reports (stdout s)"
  "reports (stdout (stepB p1 names gc1 gc2 cp s)) = reports (stdout s)"
  "reports (stdout (stepC names gc1 gc2 cp s)) = reports (stdout s)"
  by (simp_all add: stepA_def stepB_def stepC_def Let_def split: option.splits)

lemma reports_fold:
  "reports (stdout (fold (stepA p1 names) cps s)) = reports (stdout s)"
  "reports (stdout (fold (stepB p1 names gc1 gc2) cps s)) = reports (stdout s)"
  "reports (stdout (fold (stepC names gc1 gc2) cps s)) = reports (stdout s)"
  by (induction cps arbitrary: s) (simp_all add: reports_step)

lemma foldA_buffer_ex: "\<exists>x. buffer (fold (stepA p1 names) cps s) = buffer s @ x"
proof (induction cps arbitrary: s)
  case Nil
  then show ?case by simp
next
  case (Cons cp cps)
  from Cons.IH [of "stepA p1 names cp s"] show ?case
    by (auto simp: stepA_sel)
qed

lemma foldB_buffer_ex: "\<exists>x. buffer (fold (stepB p1 names gc1 gc2) cps s) = buffer s @ x"
proof (induction cps arbitrary: s)
  case Nil
  then show ?case by simp
next
  case (Cons cp cps)
  from Cons.IH [of "stepB p1 names gc1 gc2 cp s"] show ?case
    by (auto simp: stepB_sel)
qed

lemma foldC_buffer_ex: "\<exists>x. buffer (fold (stepC names gc1 gc2) cps s) = buffer s @ x"
proof (induction cps arbitrary: s)
  case Nil
  then show ?case by simp
next
  case (Cons cp cps)
  from Cons.IH [of "stepC names gc1 gc2 cp s"] show ?case
    by (auto simp: stepC_sel)
qed

lemma fold_fprintf_sel [simp]:
  "buffer (fold (\<lambda>change. fprintf (g change)) xs s) = buffer s @ map g xs"
  "stdout (fold (\<lambda>change. fprintf (g change)) xs s) = stdout s"
  "appendix (fold (\<lambda>change. fprintf (g change)) xs s) = appendix s"
  "properties2 (fold (\<lambda>change. fprintf (g change)) xs s) = properties2 s"
  "numAppendixA (fold (\<lambda>change. fprintf (g change)) xs s) = numAppendixA s"
  "numAppendixB (fold (\<lambda>change. fprintf (g change)) xs s) = numAppendixB s"
  "numAppendixC (fold (\<lambda>change. fprintf (g change)) xs s) = numAppendixC s"
  "numAppendixD (fold (\<lambda>change. fprintf (g change)) xs s) = numAppendixD s"
  "numAppendixE (fold (\<lambda>change. fprintf (g change)) xs s) = numAppendixE s"
  by (induction xs arbitrary: s) simp_all

lemma fold_summary:
  "fold (\<lambda>(change, count') (totalCount, sortedChanges).
           (totalCount + count',
            sortedChanges @ [''# '' @ fmtD count' @ '' code '' @ plural count'
                             @ '' changed from '' @ change]))
     xs (t, sc) = (t + sum_list (map snd xs), sc @ map summaryLine xs)"
  by (induction xs arbitrary: t sc) (auto simp: summaryLine_def)

lemma changeSummary_eq:
  "changeSummary order s =
     (let s' = printf ''Count changes in derived property values\<newline>'' s
      in if changeCounts s \<noteq> [] then
           fprintf (''# '' @ fmtD (sum_list (map snd (order (changeCounts s)))) @ '' code ''
                    @ plural (sum_list (map snd (order (changeCounts s))))
                    @ '' changed in total\<newline>'')
             (fold (\<lambda>change. fprintf (change @ ''\<newline>''))
                (sort (map summaryLine (order (changeCounts s)))) s')
         else fprintf ''# No derived property changes detected.\<newline>'' s')"
  unfolding changeSummary_def fold_summary by (simp add: Let_def)

lemma fair_sum:
  assumes "mset ys = mset (xs :: (string \<times> int) list)"
  shows "sum_list (map snd ys) = sum_list (map snd xs)"
proof -
  have "sum_mset (mset (map snd ys)) = sum_mset (mset (map snd xs))"
    using assms by simp
  then show ?thesis by (simp only: sum_mset_sum_list)
qed

lemma fair_sort:
  assumes "mset ys = mset xs"
  shows "sort (map g ys) = sort (map g xs)"
  by (rule properties_for_sort) (simp_all add: assms)

lemma changeSummary_fair:
  assumes "\<forall>m. mset (order m) = mset m"
  shows "changeSummary order s = changeSummary id s"
proof -
  have 1: "sum_list (map snd (order m)) = sum_list (map snd m)" for m
    by (rule fair_sum) (simp add: assms)
  have 2: "sort (map summaryLine (order m)) = sort (map summaryLine m)" for m
    by (rule fair_sort) (simp add: assms)
  show ?thesis
    unfolding changeSummary_eq 1 2 by (simp only: id_apply)
qed

lemma changeSummary_sel:
  "appendix (changeSummary order s) = appendix s"
  "properties2 (changeSummary order s) = properties2 s"
  "numAppendixA (changeSummary order s) = numAppendixA s"
  "numAppendixB (changeSummary order s) = numAppendixB s"
  "numAppendixC (changeSummary order s) = numAppendixC s"
  "numAppendixD (changeSummary order s) = numAppendixD s"
  "numAppendixE (changeSummary order s) = numAppendixE s"
  "reports (stdout (changeSummary order s)) = reports (stdout s)"
  "\<exists>x. buffer (changeSummary order s) = buffer s @ x"
  by (simp_all add: changeSummary_eq Let_def)

lemma countMn_fair:
  assumes "mset ys = mset xs"
  shows "countMn gc ys = countMn gc xs"
proof -
  have c: "countMn gc zs = int (length (filter (\<lambda>(codepoint, property).
             property \<noteq> ''UNASSIGNED'' \<and> index gc codepoint = ''Mn'') zs))" for zs
  proof -
    have "fold (\<lambda>(codepoint, property) n.
             if property \<noteq> ''UNASSIGNED'' \<and> index gc codepoint = ''Mn''
             then n + 1 else n) zs k
          = k + int (length (filter (\<lambda>(codepoint, property).
             property \<noteq> ''UNASSIGNED'' \<and> index gc codepoint = ''Mn'') zs))" for k
      by (induction zs arbitrary: k) (auto split: if_splits)
    then show ?thesis by (simp add: countMn_def)
  qed
  have "size (filter_mset (\<lambda>(codepoint, property).
             property \<noteq> ''UNASSIGNED'' \<and> index gc codepoint = ''Mn'') (mset ys))
      = size (filter_mset (\<lambda>(codepoint, property).
             property \<noteq> ''UNASSIGNED'' \<and> index gc codepoint = ''Mn'') (mset xs))"
    using assms by simp
  then show ?thesis
    unfolding c by (simp only: mset_filter [symmetric] size_mset)
qed

lemma appendixC_fair:
  assumes "fair sch"
  shows "appendixC sch v1 v2 p1 names gc1 gc2 cps s
         = appendixC inOrder v1 v2 p1 names gc1 gc2 cps s"
proof -
  have a: "countMn gc (range292 sch m) = countMn gc m" for gc m
    by (rule countMn_fair) (use assms in \<open>simp add: fair_def\<close>)
  have b: "countMn gc (range301 sch m) = countMn gc m" for gc m
    by (rule countMn_fair) (use assms in \<open>simp add: fair_def\<close>)
  show ?thesis
    unfolding appendixC_def a b inOrder_def by (simp only: schedule.select_convs id_apply)
qed

lemma appendixC_sel:
  "properties2 (appendixC sch v1 v2 p1 names gc1 gc2 cps s) = properties2 s"
  "numAppendixA (appendixC sch v1 v2 p1 names gc1 gc2 cps s) = numAppendixA s"
  "numAppendixB (appendixC sch v1 v2 p1 names gc1 gc2 cps s) = numAppendixB s"
  "numAppendixD (appendixC sch v1 v2 p1 names gc1 gc2 cps s) = numAppendixD s"
  "appendix (appendixC sch v1 v2 p1 names gc1 gc2 cps s) =
     appendix s @ map (flag names) (filter (categoryC (properties2 s) gc1 gc2) cps)"
  "numAppendixE (appendixC sch v1 v2 p1 names gc1 gc2 cps s) =
     numAppendixE s + int (length (filter (categoryC (properties2 s) gc1 gc2) cps))"
  "reports (stdout (appendixC sch v1 v2 p1 names gc1 gc2 cps s)) = reports (stdout s)"
  by (simp_all add: appendixC_def Let_def foldC_appendix foldC_numAppendixE reports_fold)

lemma appendixC_buffer_ex:
  "\<exists>x. buffer (appendixC sch v1 v2 p1 names gc1 gc2 cps s) =
     buffer s @ ''\<newline>\<newline>Appendix C: New code points where General Category is Mn\<newline>\<newline>'' # x"
proof -
  let ?s1 = "printf (''Number of code points with General_Category Mn in version '' @ v2 @ '': ''
              @ fmtD (countMn gc2 (range301 sch (properties2 s))) @ ''\<newline>'')
             (printf (''Number of code points with General_Category Mn in version '' @ v1 @ '': ''
              @ fmtD (countMn gc1 (range292 sch p1)) @ ''\<newline>'')
             (printf ''Count code points with General_Category Mn\<newline>''
             (fprintf ''\<newline>\<newline>Appendix C: New code points where General Category is Mn\<newline>\<newline>'' s)))"
  from foldC_buffer_ex [of names gc1 gc2 cps ?s1] obtain x where
    "buffer (fold (stepC names gc1 gc2) cps ?s1) = buffer ?s1 @ x" by blast
  then show ?thesis
    by (simp add: appendixC_def Let_def)
qed

lemma appendixA_more:
  "reports (stdout (appendixA p1 names cps s)) = reports (stdout s)"
  "\<exists>x. buffer (appendixA p1 names cps s) =
     buffer s @ ''\<newline>Appendix A: Code points that changed derived property values\<newline>\<newline>'' # x"
proof -
  show "reports (stdout (appendixA p1 names cps s)) = reports (stdout s)"
    by (simp add: appendixA_def Let_def reports_fold)
  let ?s1 = "fprintf ''\<newline>Appendix A: Code points that changed derived property values\<newline>\<newline>''
               (s\<lparr>changeCounts := []\<rparr>)"
  from foldA_buffer_ex [of p1 names cps ?s1] obtain x where
    "buffer (fold (stepA p1 names) cps ?s1) = buffer ?s1 @ x" by blast
  then show "\<exists>x. buffer (appendixA p1 names cps s) =
     buffer s @ ''\<newline>Appendix A: Code points that changed derived property values\<newline>\<newline>'' # x"
    by (simp add: appendixA_def Let_def)
qed

lemma appendixB_more:
  "reports (stdout (appendixB p1 names gc1 gc2 cps s)) = reports (stdout s)"
  "\<exists>x. buffer (appendixB p1 names gc1 gc2 cps s) =
     buffer s @ ''\<newline>\<newline>Appendix B: Changes in General Category\<newline>\<newline>'' # x"
proof -
  show "reports (stdout (appendixB p1 names gc1 gc2 cps s)) = reports (stdout s)"
    by (simp add: appendixB_def Let_def reports_fold)
  let ?s1 = "fprintf ''\<newline>\<newline>Appendix B: Changes in General Category\<newline>\<newline>''
               (printf ''Check changes in General Category:\<newline>'' s)"
  from foldB_buffer_ex [of p1 names gc1 gc2 cps ?s1] obtain x where
    "buffer (fold (stepB p1 names gc1 gc2) cps ?s1) = buffer ?s1 @ x" by blast
  then show "\<exists>x. buffer (appendixB p1 names gc1 gc2 cps s) =
     buffer s @ ''\<newline>\<newline>Appendix B: Changes in General Category\<newline>\<newline>'' # x"
    by (simp add: appendixB_def Let_def)
qed

lemma appendixE_more:
  "appendix (appendixE f s) = sortAppendix f (appendix s)"
  "reports (stdout (appendixE f s)) = reports (stdout s)"
  "buffer (appendixE f s) =
     buffer s @ ''\<newline>Appendix E: Additions to Exceptions (F)\<newline>\<newline>''
     # map (\<lambda>e. Name e @ ''\<newline>'') (sortAppendix f (appendix s))
     @ (if numAppendixE s = 0
        then [''# No additional code points to become UNDER REVIEW\<newline>''] else [])"
  by (simp_all add: appendixE_def Let_def foldE_buffer)

lemma appendixF_more:
  "appendix (appendixF v2 cps s) = appendix s"
  "stdout (appendixF v2 cps s) = stdout s"
  "properties2 (appendixF v2 cps s) = properties2 s"
  by (simp_all add: appendixF_def Let_def)

lemma stepD_quiet:
  "(case stepD p1 names nfk1 nfk2 cp s of
      Inl (msg, s') \<Rightarrow> reports (stdout s') = reports (stdout s)
    | Inr s' \<Rightarrow> reports (stdout s') = reports (stdout s) \<and> (\<exists>x. buffer s' = buffer s @ x))"
  by (simp add: stepD_def Let_def split: option.splits sum.splits)

lemma loopD_quiet:
  "(case loopD p1 names nfk1 nfk2 cps s of
      Inl (msg, s') \<Rightarrow> reports (stdout s') = reports (stdout s)
    | Inr s' \<Rightarrow> reports (stdout s') = reports (stdout s) \<and> (\<exists>x. buffer s' = buffer s @ x))"
proof (induction cps arbitrary: s)
  case Nil
  then show ?case by simp
next
  case (Cons cp cps)
  show ?case
  proof (cases "stepD p1 names nfk1 nfk2 cp s")
    case (Inl p)
    with stepD_quiet [where ?p1.0=p1 and names=names and ?nfk1.0=nfk1 and ?nfk2.0=nfk2 and cp=cp and s=s] show ?thesis
      by (simp split: prod.splits)
  next
    case (Inr s1)
    with stepD_quiet [where ?p1.0=p1 and names=names and ?nfk1.0=nfk1 and ?nfk2.0=nfk2 and cp=cp and s=s] obtain x where
      s1: "reports (stdout s1) = reports (stdout s)" "buffer s1 = buffer s @ x" by auto
    from Cons.IH [where s=s1] Inr s1 show ?thesis
      by (auto split: sum.splits prod.splits)
  qed
qed

lemma appendixD_quiet:
  "(case appendixD p1 names nfk1 nfk2 cps s of
      Inl (msg, s') \<Rightarrow> reports (stdout s') = reports (stdout s)
    | Inr s' \<Rightarrow> reports (stdout s') = reports (stdout s) \<and> (\<exists>x. buffer s' = buffer s @ x))"
proof -
  note l = loopD_quiet [where ?p1.0=p1 and names=names and ?nfk1.0=nfk1 and ?nfk2.0=nfk2 and cps=cps and s="s\<lparr>noChangeFromOtherNFK := True\<rparr>"]
  show ?thesis
  proof (cases "loopD p1 names nfk1 nfk2 cps (s\<lparr>noChangeFromOtherNFK := True\<rparr>)")
    case (Inl p)
    with l show ?thesis by (simp add: appendixD_def split: prod.splits)
  next
    case (Inr s1)
    with l obtain x where
      "reports (stdout s1) = reports (stdout s)" "buffer s1 = buffer s @ x" by auto
    with Inr show ?thesis by (simp add: appendixD_def Let_def)
  qed
qed

lemma compareVersionsNFK_reports_raw:
  "(case compareVersionsNFK f ld v1 v2 p1 names cps s of
      (e, s') \<Rightarrow>
        (e = Finished \<and> \<not> isl (readNFKData ld (filepath_Join v1 ''nfk.txt''))
           \<and> \<not> isl (readNFKData ld (filepath_Join v2 ''nfk.txt''))
           \<and> (\<exists>d x y. reports (stdout s') = reports (stdout s)
                 @ [buffer s
                    @ ''\<newline>\<newline>Appendix D: New code points with NFK normalization\<newline>\<newline>'' # d
                    @ ''\<newline>Appendix E: Additions to Exceptions (F)\<newline>\<newline>'' # x
                    @ (''\<newline>Appendix F: Derived property values Unicode '' @ v2 @ ''\<newline>\<newline>'') # y]))
        \<or> (e \<noteq> Finished \<and> reports (stdout s') = reports (stdout s)))"
proof (cases "readNFKData ld (filepath_Join v1 ''nfk.txt'')")
  case (Inl err)
  then show ?thesis by (simp add: compareVersionsNFK_def Let_def)
next
  case nfk1: (Inr nfk1)
  show ?thesis
  proof (cases "readNFKData ld (filepath_Join v2 ''nfk.txt'')")
    case (Inl err)
    with nfk1 show ?thesis by (simp add: compareVersionsNFK_def Let_def)
  next
    case nfk2: (Inr nfk2)
    let ?s1 = "printf ''\<newline>Check changes in NFK for all code points\<newline>''
                (fprintf ''\<newline>\<newline>Appendix D: New code points with NFK normalization\<newline>\<newline>'' s)"
    note q = appendixD_quiet [where ?p1.0=p1 and names=names and ?nfk1.0=nfk1 and ?nfk2.0=nfk2 and cps=cps and s="?s1"]
    show ?thesis
    proof (cases "appendixD p1 names nfk1 nfk2 cps ?s1")
      case (Inl p)
      with q nfk1 nfk2 show ?thesis
        by (simp add: compareVersionsNFK_def Let_def split: prod.splits)
    next
      case (Inr s2)
      with q obtain d where s2: "reports (stdout s2) = reports (stdout s)"
        "buffer s2 = buffer s @ ''\<newline>\<newline>Appendix D: New code points with NFK normalization\<newline>\<newline>'' # d"
        by auto
      have "\<exists>y. buffer (appendixF v2 cps (appendixE f s2)) =
              buffer (appendixE f s2)
              @ (''\<newline>Appendix F: Derived property values Unicode '' @ v2 @ ''\<newline>\<newline>'') # y"
        by (simp add: appendixF_buffer)
      moreover have "\<exists>x. buffer (appendixE f s2) =
              buffer s2 @ ''\<newline>Appendix E: Additions to Exceptions (F)\<newline>\<newline>'' # x"
        by (simp add: appendixE_more)
      ultimately obtain x y where b: "buffer (appendixF v2 cps (appendixE f s2)) =
          buffer s @ ''\<newline>\<newline>Appendix D: New code points with NFK normalization\<newline>\<newline>'' # d
          @ ''\<newline>Appendix E: Additions to Exceptions (F)\<newline>\<newline>'' # x
          @ (''\<newline>Appendix F: Derived property values Unicode '' @ v2 @ ''\<newline>\<newline>'') # y"
        using s2(2) by auto
      have r: "reports (stdout (appendixF v2 cps (appendixE f s2))) = reports (stdout s)"
        by (simp add: appendixF_more appendixE_more s2)
      have "compareVersionsNFK f ld v1 v2 p1 names cps s =
              (Finished, printf ''===================\<newline>''
                 ((appendixF v2 cps (appendixE f s2))
                    \<lparr>stdout := stdout (appendixF v2 cps (appendixE f s2))
                       @ [Report (buffer (appendixF v2 cps (appendixE f s2)))],
                     buffer := []\<rparr>))"
        using nfk1 nfk2 Inr by (simp add: compareVersionsNFK_def Let_def)
      then show ?thesis
        using nfk1 nfk2 r b by auto
    qed
  qed
qed

lemma compareVersionsNFK_reports:
  "(case compareVersionsNFK f ld v1 v2 p1 names cps s of
      (e, s') \<Rightarrow>
        (e = Finished \<and> \<not> isl (readNFKData ld (filepath_Join v1 ''nfk.txt''))
           \<and> \<not> isl (readNFKData ld (filepath_Join v2 ''nfk.txt''))
           \<and> (\<exists>d x y. reports (stdout s') = reports (stdout s)
                 @ [buffer s @ titleD # d @ titleE # x @ titleF v2 # y]))
        \<or> (e \<noteq> Finished \<and> reports (stdout s') = reports (stdout s)))"
  unfolding titleD_def titleE_def titleF_def by (rule compareVersionsNFK_reports_raw)

lemma titled:
  "\<exists>x. buffer (appendixA p1 names cps s) = buffer s @ titleA # x"
  "\<exists>x. buffer (appendixB p1 names gc1 gc2 cps s) = buffer s @ titleB # x"
  "\<exists>x. buffer (appendixC sch v1 v2 p1 names gc1 gc2 cps s) = buffer s @ titleC # x"
  unfolding titleA_def titleB_def titleC_def
  by (rule appendixA_more appendixB_more appendixC_buffer_ex)+

lemma compareVersionsGC_reports:
  "(case compareVersionsGC sch f ld v1 v2 p1 names cps s of
      (e, s') \<Rightarrow>
        (e = Finished
           \<and> \<not> isl (readGeneralCategory ld (filepath_Join v1 ''DerivedGeneralCategory.txt''))
           \<and> \<not> isl (readGeneralCategory ld (filepath_Join v2 ''DerivedGeneralCategory.txt''))
           \<and> \<not> isl (readNFKData ld (filepath_Join v1 ''nfk.txt''))
           \<and> \<not> isl (readNFKData ld (filepath_Join v2 ''nfk.txt''))
           \<and> (\<exists>b c d x y. reports (stdout s') = reports (stdout s)
                 @ [buffer s @ titleB # b @ titleC # c @ titleD # d @ titleE # x
                    @ titleF v2 # y]))
        \<or> (e \<noteq> Finished \<and> reports (stdout s') = reports (stdout s)))"
proof (cases "readGeneralCategory ld (filepath_Join v1 ''DerivedGeneralCategory.txt'')")
  case (Inl err)
  then show ?thesis by (simp add: compareVersionsGC_def Let_def)
next
  case gc1: (Inr gc1)
  show ?thesis
  proof (cases "readGeneralCategory ld (filepath_Join v2 ''DerivedGeneralCategory.txt'')")
    case (Inl err)
    with gc1 show ?thesis by (simp add: compareVersionsGC_def Let_def)
  next
    case gc2: (Inr gc2)
    let ?s0 = "printf ''Reading General Category definitions\<newline>'' s"
    let ?sB = "appendixB p1 names gc1 gc2 cps ?s0"
    let ?sC = "appendixC sch v1 v2 p1 names gc1 gc2 cps ?sB"
    obtain b where b: "buffer ?sB = buffer s @ titleB # b"
      using titled(2) [of p1 names gc1 gc2 cps ?s0] by auto
    obtain c where c: "buffer ?sC = buffer ?sB @ titleC # c"
      using titled(3) [of sch v1 v2 p1 names gc1 gc2 cps ?sB] by auto
    have r: "reports (stdout ?sC) = reports (stdout s)"
      by (simp add: appendixC_sel appendixB_more)
    have eq: "compareVersionsGC sch f ld v1 v2 p1 names cps s
              = compareVersionsNFK f ld v1 v2 p1 names cps ?sC"
      using gc1 gc2 by (simp add: compareVersionsGC_def Let_def)
    obtain e s' where res: "compareVersionsNFK f ld v1 v2 p1 names cps ?sC = (e, s')"
      by (cases "compareVersionsNFK f ld v1 v2 p1 names cps ?sC") auto
    from compareVersionsNFK_reports [where f=f and ld=ld and ?v1.0=v1 and ?v2.0=v2
        and ?p1.0=p1 and names=names and cps=cps and s="?sC"] res
    have "(e = Finished \<and> \<not> isl (readNFKData ld (filepath_Join v1 ''nfk.txt''))
           \<and> \<not> isl (readNFKData ld (filepath_Join v2 ''nfk.txt''))
           \<and> (\<exists>d x y. reports (stdout s') = reports (stdout ?sC)
                 @ [buffer ?sC @ titleD # d @ titleE # x @ titleF v2 # y]))
        \<or> (e \<noteq> Finished \<and> reports (stdout s') = reports (stdout ?sC))"
      by simp
    then consider
      (fin) d x y where "e = Finished" "\<not> isl (readNFKData ld (filepath_Join v1 ''nfk.txt''))"
        "\<not> isl (readNFKData ld (filepath_Join v2 ''nfk.txt''))"
        "reports (stdout s') = reports (stdout ?sC)
           @ [buffer ?sC @ titleD # d @ titleE # x @ titleF v2 # y]"
      | (abort) "e \<noteq> Finished" "reports (stdout s') = reports (stdout ?sC)"
      by blast
    then show ?thesis
    proof cases
      case fin
      from fin(4) have "reports (stdout s') = reports (stdout s)
          @ [buffer s @ titleB # b @ titleC # c @ titleD # d @ titleE # x @ titleF v2 # y]"
        unfolding r c b by simp
      then have "\<exists>b c d x y. reports (stdout s') = reports (stdout s)
          @ [buffer s @ titleB # b @ titleC # c @ titleD # d @ titleE # x @ titleF v2 # y]"
        by blast
      with fin(1-3) gc1 gc2 show ?thesis
        unfolding eq res by simp
    next
      case abort
      then show ?thesis unfolding eq res r by simp
    qed
  qed
qed

lemma initial_sel:
  "stdout initial = []" "buffer initial = []" "appendix initial = []"
  "numAppendixA initial = 0" "numAppendixB initial = 0" "numAppendixC initial = 0"
  "numAppendixD initial = 0" "numAppendixE initial = 0" "properties2 initial = []"
  by (simp_all add: initial_def)

lemma compareVersions_reports:
  "(case compareVersions sch f ld v1 v2 of
      (e, s) \<Rightarrow>
        (e = Finished
           \<and> \<not> isl (readCodepointProperties ld (filepath_Join v1 ''allcodepoints.txt''))
           \<and> \<not> isl (readCodepointProperties ld (filepath_Join v2 ''allcodepoints.txt''))
           \<and> \<not> isl (readGeneralCategory ld (filepath_Join v1 ''DerivedGeneralCategory.txt''))
           \<and> \<not> isl (readGeneralCategory ld (filepath_Join v2 ''DerivedGeneralCategory.txt''))
           \<and> \<not> isl (readNFKData ld (filepath_Join v1 ''nfk.txt''))
           \<and> \<not> isl (readNFKData ld (filepath_Join v2 ''nfk.txt''))
           \<and> (\<exists>a b c d x y. reports (stdout s) =
                 [titleA # a @ titleB # b @ titleC # c @ titleD # d @ titleE # x
                  @ titleF v2 # y]))
        \<or> (e \<noteq> Finished \<and> reports (stdout s) = []))"
proof (cases "readCodepointProperties ld (filepath_Join v1 ''allcodepoints.txt'')")
  case (Inl err)
  then show ?thesis by (simp add: compareVersions_def Let_def initial_sel)
next
  case r1: (Inr pn1)
  obtain p1 n1 where pn1: "pn1 = (p1, n1)" by (cases pn1)
  show ?thesis
  proof (cases "readCodepointProperties ld (filepath_Join v2 ''allcodepoints.txt'')")
    case (Inl err)
    with r1 pn1 show ?thesis by (simp add: compareVersions_def Let_def initial_sel)
  next
    case r2: (Inr pn2)
    obtain p2 names where pn2: "pn2 = (p2, names)" by (cases pn2)
    show ?thesis
    proof (cases "collectCodepoints (map fst (range160 sch p2)) []")
      case (Inl msg)
      with r1 pn1 r2 pn2 show ?thesis
        by (simp add: compareVersions_def Let_def initial_sel)
    next
      case (Inr unsorted)
      let ?s0 = "printf ''Comparing derived property values\<newline>''
                  (printf (''Comparing version '' @ v1 @ '' and '' @ v2 @ ''\<newline>'')
                    (initial\<lparr>properties2 := p2\<rparr>))"
      let ?sA = "appendixA p1 names (sort unsorted) ?s0"
      let ?sS = "changeSummary (range214 sch) ?sA"
      obtain a0 where a0: "buffer ?sA = buffer ?s0 @ titleA # a0"
        using titled(1) [of p1 names "sort unsorted" ?s0] by auto
      obtain a1 where a1: "buffer ?sS = buffer ?sA @ a1"
        using changeSummary_sel(9) [of "range214 sch" ?sA] by auto
      have b0: "buffer ?s0 = []" by (simp add: initial_sel)
      have r: "reports (stdout ?sS) = []"
        by (simp add: changeSummary_sel appendixA_more initial_sel)
      have eq: "compareVersions sch f ld v1 v2
                = compareVersionsGC sch f ld v1 v2 p1 names (sort unsorted) ?sS"
        using r1 pn1 r2 pn2 Inr by (simp add: compareVersions_def Let_def)
      obtain e s' where
        res: "compareVersionsGC sch f ld v1 v2 p1 names (sort unsorted) ?sS = (e, s')"
        by (cases "compareVersionsGC sch f ld v1 v2 p1 names (sort unsorted) ?sS") auto
      from compareVersionsGC_reports [where sch=sch and f=f and ld=ld and ?v1.0=v1
          and ?v2.0=v2 and ?p1.0=p1 and names=names and cps="sort unsorted" and s="?sS"] res
      have "(e = Finished
           \<and> \<not> isl (readGeneralCategory ld (filepath_Join v1 ''DerivedGeneralCategory.txt''))
           \<and> \<not> isl (readGeneralCategory ld (filepath_Join v2 ''DerivedGeneralCategory.txt''))
           \<and> \<not> isl (readNFKData ld (filepath_Join v1 ''nfk.txt''))
           \<and> \<not> isl (readNFKData ld (filepath_Join v2 ''nfk.txt''))
           \<and> (\<exists>b c d x y. reports (stdout s') = reports (stdout ?sS)
                 @ [buffer ?sS @ titleB # b @ titleC # c @ titleD # d @ titleE # x
                    @ titleF v2 # y]))
        \<or> (e \<noteq> Finished \<and> reports (stdout s') = reports (stdout ?sS))"
        by simp
      then consider
        (fin) b c d x y where "e = Finished"
          "\<not> isl (readGeneralCategory ld (filepath_Join v1 ''DerivedGeneralCategory.txt''))"
          "\<not> isl (readGeneralCategory ld (filepath_Join v2 ''DerivedGeneralCategory.txt''))"
          "\<not> isl (readNFKData ld (filepath_Join v1 ''nfk.txt''))"
          "\<not> isl (readNFKData ld (filepath_Join v2 ''nfk.txt''))"
          "reports (stdout s') = reports (stdout ?sS)
             @ [buffer ?sS @ titleB # b @ titleC # c @ titleD # d @ titleE # x @ titleF v2 # y]"
        | (abort) "e \<noteq> Finished" "reports (stdout s') = reports (stdout ?sS)"
        by blast
      then show ?thesis
      proof cases
        case fin
        from fin(6) have "reports (stdout s') =
            [titleA # (a0 @ a1) @ titleB # b @ titleC # c @ titleD # d @ titleE # x
             @ titleF v2 # y]"
          unfolding r a1 a0 b0 by simp
        then have "\<exists>a b c d x y. reports (stdout s') =
            [titleA # a @ titleB # b @ titleC # c @ titleD # d @ titleE # x @ titleF v2 # y]"
          by blast
        with fin(1-5) r1 r2 show ?thesis
          unfolding eq res by simp
      next
        case abort
        then show ?thesis unfolding eq res r by simp
      qed
    qed
  qed
qed

lemma Number_flag [simp]: "Number (flag names cp) = cp"
  by (simp add: flag_def underReview_def)

lemma flagged_simps [simp]:
  "flagged names []"
  "flagged names (xs @ ys) \<longleftrightarrow> flagged names xs \<and> flagged names ys"
  "flagged names (map (flag names) cps)"
  by (auto simp: flagged_def list_all_iff)

lemma filter_eq_replicate: "filter (\<lambda>x. a = x) xs = replicate (count (mset xs) a) a"
  by (induction xs) auto

lemma flagged_inj: "flagged names es \<Longrightarrow> inj_on Number (set es)"
proof (rule inj_onI)
  fix a b assume f: "flagged names es" and m: "a \<in> set es" "b \<in> set es"
    and eq: "Number a = Number b"
  from f m have "a = flag names (Number a)" "b = flag names (Number b)"
    by (simp_all add: flagged_def list_all_iff)
  with eq show "a = b" by simp
qed

lemma sorted_by_key_unique:
  assumes "inj_on k (set xs)" "mset ys = mset xs" "sorted (map k ys)"
  shows "sort_key k xs = ys"
proof (rule properties_for_sort_key)
  show "mset ys = mset xs" by (rule assms(2))
  show "sorted (map k ys)" by (rule assms(3))
  fix a assume a: "a \<in> set ys"
  from assms(2) have s: "set ys = set xs" by (metis set_mset_mset)
  have "filter (\<lambda>x. k a = k x) zs = filter (\<lambda>x. a = x) zs" if "set zs \<subseteq> set xs" for zs
    using that a s assms(1) by (intro filter_cong refl) (auto dest: inj_onD)
  then have "filter (\<lambda>x. k a = k x) ys = filter (\<lambda>x. a = x) ys"
    "filter (\<lambda>x. k a = k x) xs = filter (\<lambda>x. a = x) xs"
    using s by simp_all
  moreover have "filter (\<lambda>x. a = x) ys = filter (\<lambda>x. a = x) xs"
    by (simp add: filter_eq_replicate assms(2))
  ultimately show "filter (\<lambda>x. k a = k x) ys = filter (\<lambda>x. k a = k x) xs" by simp
qed

lemma sortSlice_flagged:
  assumes "sortsByNumber f" "flagged names es"
  shows "sortAppendix f es = sort_key Number es"
proof -
  from assms(1) have "mset (sortAppendix f es) = mset es"
    "sorted (map Number (sortAppendix f es))"
    by (simp_all add: sortsByNumber_def)
  with flagged_inj [OF assms(2)] show ?thesis
    by (intro sorted_by_key_unique [symmetric])
qed

lemma appendixE_cong:
  "sortAppendix f (appendix s) = sortAppendix g (appendix s) \<Longrightarrow> appendixE f s = appendixE g s"
  by (simp add: appendixE_def Let_def)

lemma collectCodepoints_Inr:
  "list_all (\<lambda>k. \<not> isl (hexToInt k)) ks \<Longrightarrow>
   collectCodepoints ks acc = Inr (acc @ map (\<lambda>k. projr (hexToInt k)) ks)"
proof (induction ks arbitrary: acc)
  case Nil
  then show ?case by simp
next
  case (Cons k ks)
  then obtain v where "hexToInt k = Inr v" by (cases "hexToInt k") auto
  with Cons show ?case by simp
qed

lemma collectCodepoints_Inl:
  "\<not> list_all (\<lambda>k. \<not> isl (hexToInt k)) ks \<Longrightarrow> isl (collectCodepoints ks acc)"
proof (induction ks arbitrary: acc)
  case Nil
  then show ?case by simp
next
  case (Cons k ks)
  then show ?case by (cases "hexToInt k") auto
qed

lemma collectCodepoints_int32:
  assumes "collectCodepoints ks [] = Inr cps"
  shows "\<forall>cp\<in>set cps. int32 cp"
proof -
  have all: "list_all (\<lambda>k. \<not> isl (hexToInt k)) ks"
    using collectCodepoints_Inl [of ks "[]"] assms by auto
  with collectCodepoints_Inr [OF all, of "[]"] assms
  have cps: "cps = map (\<lambda>k. projr (hexToInt k)) ks" by simp
  show ?thesis
  proof
    fix cp assume "cp \<in> set cps"
    with cps obtain k where k: "k \<in> set ks" "cp = projr (hexToInt k)" by auto
    with all have "\<not> isl (hexToInt k)" by (simp add: list_all_iff)
    then have "hexToInt k = Inr cp" using k(2) by (cases "hexToInt k") auto
    then show "int32 cp" using hexToInt_range [of k cp] by (simp add: int32_def)
  qed
qed

lemma collectCodepoints_fair:
  assumes "mset ks' = mset ks"
  shows "(\<exists>a b. collectCodepoints ks' [] = Inr a \<and> collectCodepoints ks [] = Inr b
                \<and> sort a = sort b)
       \<or> (isl (collectCodepoints ks' []) \<and> isl (collectCodepoints ks []))"
proof (cases "list_all (\<lambda>k. \<not> isl (hexToInt k)) ks")
  case True
  from assms have "set ks' = set ks" by (metis set_mset_mset)
  with True have t': "list_all (\<lambda>k. \<not> isl (hexToInt k)) ks'" by (simp add: list_all_iff)
  have "mset (map (\<lambda>k. projr (hexToInt k)) ks') = mset (map (\<lambda>k. projr (hexToInt k)) ks)"
    using assms by simp
  then have "sort (map (\<lambda>k. projr (hexToInt k)) ks') = sort (map (\<lambda>k. projr (hexToInt k)) ks)"
    by (intro properties_for_sort) simp_all
  with collectCodepoints_Inr [OF True, of "[]"] collectCodepoints_Inr [OF t', of "[]"]
  show ?thesis by simp
next
  case False
  from assms have "set ks' = set ks" by (metis set_mset_mset)
  with False have "\<not> list_all (\<lambda>k. \<not> isl (hexToInt k)) ks'" by (simp add: list_all_iff)
  with False collectCodepoints_Inl show ?thesis by blast
qed

lemma compareVersionsNFK_success:
  assumes "readNFKData ld (filepath_Join v1 ''nfk.txt'') = Inr nfk1"
    and "readNFKData ld (filepath_Join v2 ''nfk.txt'') = Inr nfk2"
    and "\<forall>cp\<in>set cps. int32 cp"
  shows "\<exists>s2. appendix s2 = appendix s
                  @ map (flag names) (filter (categoryD p1 (properties2 s) nfk2) cps)
            \<and> numAppendixE s2 = numAppendixE s
                  + int (length (filter (categoryD p1 (properties2 s) nfk2) cps))
            \<and> (\<exists>d. buffer s2 = buffer s @ titleD # d)
            \<and> reports (stdout s2) = reports (stdout s)
            \<and> (\<forall>f. compareVersionsNFK f ld v1 v2 p1 names cps s =
                  (Finished, printf ''===================\<newline>''
                     ((appendixF v2 cps (appendixE f s2))
                        \<lparr>stdout := stdout (appendixF v2 cps (appendixE f s2))
                           @ [Report (buffer (appendixF v2 cps (appendixE f s2)))],
                         buffer := []\<rparr>)))"
proof -
  let ?s1 = "printf ''\<newline>Check changes in NFK for all code points\<newline>''
              (fprintf ''\<newline>\<newline>Appendix D: New code points with NFK normalization\<newline>\<newline>'' s)"
  from appendixD_Inr [OF assms(3), of p1 names nfk1 nfk2 ?s1] obtain s2 where s2:
    "appendixD p1 names nfk1 nfk2 cps ?s1 = Inr s2"
    "appendix s2 = appendix ?s1 @ map (flag names) (filter (categoryD p1 (properties2 ?s1) nfk2) cps)"
    "numAppendixE s2 = numAppendixE ?s1
       + int (length (filter (categoryD p1 (properties2 ?s1) nfk2) cps))"
    by blast
  from appendixD_quiet [where ?p1.0=p1 and names=names and ?nfk1.0=nfk1 and ?nfk2.0=nfk2
      and cps=cps and s="?s1"] s2(1)
  obtain d where q: "reports (stdout s2) = reports (stdout ?s1)" "buffer s2 = buffer ?s1 @ d"
    by auto
  have 1: "appendix s2 = appendix s
                  @ map (flag names) (filter (categoryD p1 (properties2 s) nfk2) cps)"
    using s2(2) by simp
  have 2: "numAppendixE s2 = numAppendixE s
                  + int (length (filter (categoryD p1 (properties2 s) nfk2) cps))"
    using s2(3) by simp
  have 3: "\<exists>d. buffer s2 = buffer s @ titleD # d"
    using q(2) by (simp add: titleD_def)
  have 4: "reports (stdout s2) = reports (stdout s)"
    using q(1) by simp
  have 5: "\<forall>f. compareVersionsNFK f ld v1 v2 p1 names cps s =
                  (Finished, printf ''===================\<newline>''
                     ((appendixF v2 cps (appendixE f s2))
                        \<lparr>stdout := stdout (appendixF v2 cps (appendixE f s2))
                           @ [Report (buffer (appendixF v2 cps (appendixE f s2)))],
                         buffer := []\<rparr>))"
    using assms(1,2) s2(1) by (simp add: compareVersionsNFK_def Let_def)
  from 1 2 3 4 5 show ?thesis by blast
qed

lemma compareVersionsNFK_det:
  assumes "sortsByNumber f" "flagged names (appendix s)" "\<forall>cp\<in>set cps. int32 cp"
  shows "compareVersionsNFK f ld v1 v2 p1 names cps s
         = compareVersionsNFK stableSlice ld v1 v2 p1 names cps s"
proof (cases "readNFKData ld (filepath_Join v1 ''nfk.txt'')")
  case (Inl err)
  then show ?thesis by (simp add: compareVersionsNFK_def Let_def)
next
  case nfk1: (Inr nfk1)
  show ?thesis
  proof (cases "readNFKData ld (filepath_Join v2 ''nfk.txt'')")
    case (Inl err)
    with nfk1 show ?thesis by (simp add: compareVersionsNFK_def Let_def)
  next
    case nfk2: (Inr nfk2)
    from compareVersionsNFK_success [OF nfk1 nfk2 assms(3), of s names p1]
    obtain s2 where s2:
      "appendix s2 = appendix s @ map (flag names) (filter (categoryD p1 (properties2 s) nfk2) cps)"
      "\<And>f. compareVersionsNFK f ld v1 v2 p1 names cps s =
                  (Finished, printf ''===================\<newline>''
                     ((appendixF v2 cps (appendixE f s2))
                        \<lparr>stdout := stdout (appendixF v2 cps (appendixE f s2))
                           @ [Report (buffer (appendixF v2 cps (appendixE f s2)))],
                         buffer := []\<rparr>))"
      by blast
    have "flagged names (appendix s2)"
      using assms(2) s2(1) by simp
    then have "sortAppendix f (appendix s2) = sortAppendix stableSlice (appendix s2)"
      by (simp add: sortSlice_flagged [OF assms(1)] sortSlice_flagged [OF sortsByNumber_stableSlice])
    then have "appendixE f s2 = appendixE stableSlice s2"
      by (rule appendixE_cong)
    then show ?thesis
      by (simp only: s2(2))
  qed
qed

lemma compareVersionsGC_det:
  assumes "fair sch" "sortsByNumber f" "flagged names (appendix s)" "\<forall>cp\<in>set cps. int32 cp"
  shows "compareVersionsGC sch f ld v1 v2 p1 names cps s
         = compareVersionsGC inOrder stableSlice ld v1 v2 p1 names cps s"
proof (cases "readGeneralCategory ld (filepath_Join v1 ''DerivedGeneralCategory.txt'')")
  case (Inl err)
  then show ?thesis by (simp add: compareVersionsGC_def Let_def)
next
  case gc1: (Inr gc1)
  show ?thesis
  proof (cases "readGeneralCategory ld (filepath_Join v2 ''DerivedGeneralCategory.txt'')")
    case (Inl err)
    with gc1 show ?thesis by (simp add: compareVersionsGC_def Let_def)
  next
    case gc2: (Inr gc2)
    let ?sB = "appendixB p1 names gc1 gc2 cps
                 (printf ''Reading General Category definitions\<newline>'' s)"
    let ?sC = "appendixC inOrder v1 v2 p1 names gc1 gc2 cps ?sB"
    have c: "appendixC sch v1 v2 p1 names gc1 gc2 cps ?sB = ?sC"
      by (rule appendixC_fair [OF assms(1)])
    have "flagged names (appendix ?sC)"
      using assms(3) by (simp add: appendixC_sel appendixB_sel)
    from compareVersionsNFK_det [OF assms(2) this assms(4)]
    have n: "compareVersionsNFK f ld v1 v2 p1 names cps ?sC
             = compareVersionsNFK stableSlice ld v1 v2 p1 names cps ?sC" .
    have l: "compareVersionsGC sch f ld v1 v2 p1 names cps s
             = compareVersionsNFK f ld v1 v2 p1 names cps ?sC"
      using gc1 gc2 c by (simp add: compareVersionsGC_def Let_def)
    have r: "compareVersionsGC inOrder stableSlice ld v1 v2 p1 names cps s
             = compareVersionsNFK stableSlice ld v1 v2 p1 names cps ?sC"
      using gc1 gc2 by (simp add: compareVersionsGC_def Let_def)
    show ?thesis unfolding l r by (rule n)
  qed
qed

lemma compareVersions_det:
  assumes "fair sch" "sortsByNumber f"
  shows "snd (compareVersions sch f ld v1 v2)
         = snd (compareVersions inOrder stableSlice ld v1 v2)"
proof (cases "readCodepointProperties ld (filepath_Join v1 ''allcodepoints.txt'')")
  case (Inl err)
  then show ?thesis by (simp add: compareVersions_def Let_def)
next
  case r1: (Inr pn1)
  obtain p1 n1 where pn1: "pn1 = (p1, n1)" by (cases pn1)
  show ?thesis
  proof (cases "readCodepointProperties ld (filepath_Join v2 ''allcodepoints.txt'')")
    case (Inl err)
    with r1 pn1 show ?thesis by (simp add: compareVersions_def Let_def)
  next
    case r2: (Inr pn2)
    obtain p2 names where pn2: "pn2 = (p2, names)" by (cases pn2)
    have "mset (map fst (range160 sch p2)) = mset (map fst p2)"
      using assms(1) by (simp add: fair_def)
    from collectCodepoints_fair [OF this]
    consider
      (ok) a b where "collectCodepoints (map fst (range160 sch p2)) [] = Inr a"
        "collectCodepoints (map fst p2) [] = Inr b" "sort a = sort b"
      | (panic) "isl (collectCodepoints (map fst (range160 sch p2)) [])"
          "isl (collectCodepoints (map fst p2) [])"
      by blast
    then show ?thesis
    proof cases
      case ok
      let ?s0 = "printf ''Comparing derived property values\<newline>''
                  (printf (''Comparing version '' @ v1 @ '' and '' @ v2 @ ''\<newline>'')
                    (initial\<lparr>properties2 := p2\<rparr>))"
      let ?sA = "appendixA p1 names (sort b) ?s0"
      let ?sS = "changeSummary id ?sA"
      have cs: "changeSummary (range214 sch) ?sA = ?sS"
        by (rule changeSummary_fair) (use assms(1) in \<open>simp add: fair_def\<close>)
      have fl: "flagged names (appendix ?sS)"
        by (simp add: changeSummary_sel appendixA_sel initial_sel)
      have i32: "\<forall>cp\<in>set (sort b). int32 cp"
        using collectCodepoints_int32 [OF ok(2)] by simp
      have l: "compareVersions sch f ld v1 v2
               = compareVersionsGC sch f ld v1 v2 p1 names (sort b) ?sS"
        using r1 pn1 r2 pn2 ok cs by (simp add: compareVersions_def Let_def)
      have r: "compareVersions inOrder stableSlice ld v1 v2
               = compareVersionsGC inOrder stableSlice ld v1 v2 p1 names (sort b) ?sS"
        using r1 pn1 r2 pn2 ok by (simp add: compareVersions_def Let_def inOrder_def)
      show ?thesis
        unfolding l r by (simp only: compareVersionsGC_det [OF assms fl i32])
    next
      case panic
      then obtain m m' where "collectCodepoints (map fst (range160 sch p2)) [] = Inl m"
        "collectCodepoints (map fst p2) [] = Inl m'"
        by (metis isl_def)
      with r1 pn1 r2 pn2 show ?thesis
        by (simp add: compareVersions_def Let_def inOrder_def)
    qed
  qed
qed

lemma fair_inOrder: "fair inOrder"
  by (simp add: fair_def inOrder_def)



lemma ex_noNFK: "isl (readNFKData exLoadersNoNFK (filepath_Join ''13.0.0'' ''nfk.txt''))"
  by (simp add: exLoadersNoNFK_def)





lemma fair_backwards: "fair backwards"
  by (simp add: fair_def backwards_def)

lemma foldA_distinct:
  "distinct (map fst (changeCounts s)) \<Longrightarrow>
   distinct (map fst (changeCounts (fold (stepA p1 names) cps s)))"
  by (induction cps arbitrary: s) (simp_all add: stepA_sel distinct_update)

lemma foldA_keys:
  "fst ` set (changeCounts (fold (stepA p1 names) cps s)) =
     fst ` set (changeCounts s)
     \<union> changeKey p1 (properties2 s) ` {cp \<in> set cps. strictChange p1 (properties2 s) cp}"
  by (induction cps arbitrary: s) (auto simp: stepA_sel dom_update)

lemma distinct_alist_set:
  assumes "distinct (map fst cc)"
  shows "set cc = (\<lambda>k. (k, indexInt cc k)) ` fst ` set cc"
proof -
  have "indexInt cc k = v" if "(k, v) \<in> set cc" for k v
    using assms that by (simp add: indexInt_def)
  then show ?thesis by (force simp: image_iff)
qed

lemma appendixA_changeCounts:
  "distinct (map fst (changeCounts (appendixA old names cps s)))"
  "fst ` set (changeCounts (appendixA old names cps s)) =
     changeKey old (properties2 s) ` {cp \<in> set cps. strictChange old (properties2 s) cp}"
  by (simp_all add: appendixA_def Let_def foldA_distinct foldA_keys)

lemma appendixA_changeCounts_set:
  "set (changeCounts (appendixA old names cps s)) =
     (\<lambda>key. (key, int (length (filter (\<lambda>cp. strictChange old (properties2 s) cp
                                           \<and> changeKey old (properties2 s) cp = key) cps))))
       ` changeKey old (properties2 s) ` {cp \<in> set cps. strictChange old (properties2 s) cp}"
  using distinct_alist_set [OF appendixA_changeCounts(1), of old names cps s]
  by (simp only: appendixA_changeCounts(2) appendixA_tally(1))

lemma appendixA_changeCounts_Nil:
  "changeCounts (appendixA old names cps s) = []
     \<longleftrightarrow> filter (strictChange old (properties2 s)) cps = []"
proof -
  have "changeCounts (appendixA old names cps s) = []
          \<longleftrightarrow> fst ` set (changeCounts (appendixA old names cps s)) = {}"
    by simp
  also have "\<dots> \<longleftrightarrow> {cp \<in> set cps. strictChange old (properties2 s) cp} = {}"
    by (simp only: appendixA_changeCounts(2) image_is_empty)
  also have "\<dots> \<longleftrightarrow> filter (strictChange old (properties2 s)) cps = []"
    by (auto simp: filter_empty_conv)
  finally show ?thesis .
qed

lemma changeSummary_buffer:
  assumes "\<forall>m. mset (order m) = mset m"
  shows "buffer (changeSummary order s) =
     buffer s
     @ (if changeCounts s = [] then [''# No derived property changes detected.\<newline>'']
        else map (\<lambda>line. line @ ''\<newline>'') (sort (map summaryLine (changeCounts s)))
             @ [''# '' @ fmtD (sum_list (map snd (changeCounts s))) @ '' code ''
                @ plural (sum_list (map snd (changeCounts s))) @ '' changed in total\<newline>''])"
proof -
  have 1: "sum_list (map snd (order m)) = sum_list (map snd m)" for m
    by (rule fair_sum) (simp add: assms)
  have 2: "sort (map summaryLine (order m)) = sort (map summaryLine m)" for m
    by (rule fair_sort) (simp add: assms)
  show ?thesis
    unfolding changeSummary_eq 1 2 by (simp add: Let_def)
qed



section \<open>The properties of the specification\<close>

text \<open>
  C1. Appendix A (lines 173--206), started with its counter at zero, writes after its
  title one line for each codepoint of the new snapshot, in ascending order, that existed
  in the old snapshot with a classification different from the new one and different from
  \<open>UNASSIGNED\<close>, and appends one review entry for each of them; no other codepoint gets a
  line or an entry. The grouped tally counts, under each key \<open>old to new\<close>, every codepoint
  that existed before with a different classification, \<open>UNASSIGNED\<close> included, so that a
  codepoint going from \<open>UNASSIGNED\<close> to \<open>PVALID\<close> is counted in the total and has no line.
  The tally holds one pair for each key that occurs and nothing else, and the grouped
  summary (lines 208--233) writes it to the report behind the lines of Appendix A,
  whatever order Go ranges over the tally in: one line per key with its count, the lines
  sorted, then the line \<open>changed in total\<close> with the number of all the codepoints counted;
  when none was counted, the one line \<open>No derived property changes detected\<close>.
\<close>

theorem appendixA_lines_and_tally:
  assumes "numAppendixA s = 0"
  shows "buffer (appendixA old names cps s) =
       buffer s
       @ [''\<newline>Appendix A: Code points that changed derived property values\<newline>\<newline>'']
       @ (if filter (categoryA old (properties2 s)) cps = []
          then [''# No change in derived property value except from UNASSIGED\<newline>'']
          else ''# Code point; Old; New; Name\<newline>''
               # map (lineA old (properties2 s) names)
                   (filter (categoryA old (properties2 s)) cps))
     \<and> appendix (appendixA old names cps s) =
         appendix s @ map (flag names) (filter (categoryA old (properties2 s)) cps)
     \<and> (\<forall>key. indexInt (changeCounts (appendixA old names cps s)) key =
           int (length (filter (\<lambda>cp. strictChange old (properties2 s) cp
                                      \<and> changeKey old (properties2 s) cp = key) cps)))
     \<and> sum_list (map snd (changeCounts (appendixA old names cps s))) =
         int (length (filter (strictChange old (properties2 s)) cps))
     \<and> (\<forall>cp. map_of old (fmt04X cp) = Some ''UNASSIGNED''
              \<and> index (properties2 s) (fmt04X cp) = ''PVALID''
           \<longrightarrow> strictChange old (properties2 s) cp \<and> \<not> categoryA old (properties2 s) cp)
     \<and> distinct (map fst (changeCounts (appendixA old names cps s)))
     \<and> set (changeCounts (appendixA old names cps s)) =
         (\<lambda>key. (key, int (length (filter (\<lambda>cp. strictChange old (properties2 s) cp
                                               \<and> changeKey old (properties2 s) cp = key) cps))))
           ` changeKey old (properties2 s) ` {cp \<in> set cps. strictChange old (properties2 s) cp}
     \<and> (\<forall>order. (\<forall>m. mset (order m) = mset m) \<longrightarrow>
           buffer (changeSummary order (appendixA old names cps s)) =
             buffer (appendixA old names cps s)
             @ (if filter (strictChange old (properties2 s)) cps = []
                then [''# No derived property changes detected.\<newline>'']
                else map (\<lambda>line. line @ ''\<newline>'')
                       (sort (map summaryLine (changeCounts (appendixA old names cps s))))
                     @ [''# '' @ fmtD (int (length (filter (strictChange old (properties2 s)) cps)))
                        @ '' code ''
                        @ plural (int (length (filter (strictChange old (properties2 s)) cps)))
                        @ '' changed in total\<newline>'']))"
proof -
  have first: "buffer (appendixA old names cps s) =
       buffer s
       @ [''\<newline>Appendix A: Code points that changed derived property values\<newline>\<newline>'']
       @ (if filter (categoryA old (properties2 s)) cps = []
          then [''# No change in derived property value except from UNASSIGED\<newline>'']
          else ''# Code point; Old; New; Name\<newline>''
               # map (lineA old (properties2 s) names)
                   (filter (categoryA old (properties2 s)) cps))
     \<and> appendix (appendixA old names cps s) =
         appendix s @ map (flag names) (filter (categoryA old (properties2 s)) cps)
     \<and> (\<forall>key. indexInt (changeCounts (appendixA old names cps s)) key =
           int (length (filter (\<lambda>cp. strictChange old (properties2 s) cp
                                      \<and> changeKey old (properties2 s) cp = key) cps)))
     \<and> sum_list (map snd (changeCounts (appendixA old names cps s))) =
         int (length (filter (strictChange old (properties2 s)) cps))
     \<and> (\<forall>cp. map_of old (fmt04X cp) = Some ''UNASSIGNED''
              \<and> index (properties2 s) (fmt04X cp) = ''PVALID''
           \<longrightarrow> strictChange old (properties2 s) cp \<and> \<not> categoryA old (properties2 s) cp)"
    using appendixA_buffer [OF assms]
    by (simp add: appendixA_sel appendixA_tally strictChange_def categoryA_def)
  have summary: "buffer (changeSummary order (appendixA old names cps s)) =
             buffer (appendixA old names cps s)
             @ (if filter (strictChange old (properties2 s)) cps = []
                then [''# No derived property changes detected.\<newline>'']
                else map (\<lambda>line. line @ ''\<newline>'')
                       (sort (map summaryLine (changeCounts (appendixA old names cps s))))
                     @ [''# '' @ fmtD (int (length (filter (strictChange old (properties2 s)) cps)))
                        @ '' code ''
                        @ plural (int (length (filter (strictChange old (properties2 s)) cps)))
                        @ '' changed in total\<newline>''])"
    if "\<forall>m. mset (order m) = mset m" for order
    unfolding changeSummary_buffer [OF that] appendixA_changeCounts_Nil appendixA_tally(2) ..
  from first appendixA_changeCounts(1) [of old names cps s]
    appendixA_changeCounts_set [of old names cps s] summary
  show ?thesis by blast
qed



theorem appendixA_lines_and_tally_witness:
  "numAppendixA exState = 0
   \<and> buffer (appendixA exOld exNames [65, 66, 67, 68, 69] exState) =
       [''\<newline>Appendix A: Code points that changed derived property values\<newline>\<newline>'',
        ''# Code point; Old; New; Name\<newline>'',
        ''U+0041; PVALID; DISALLOWED; LATIN A\<newline>'']
   \<and> appendix (appendixA exOld exNames [65, 66, 67, 68, 69] exState) =
       [\<lparr>Number = 65, Name = ''U+0041; UNDER REVIEW # LATIN A''\<rparr>]
   \<and> indexInt (changeCounts (appendixA exOld exNames [65, 66, 67, 68, 69] exState))
        ''UNASSIGNED to PVALID'' = 2
   \<and> sum_list (map snd (changeCounts (appendixA exOld exNames [65, 66, 67, 68, 69] exState))) = 3
   \<and> buffer (changeSummary rev (appendixA exOld exNames [65, 66, 67, 68, 69] exState)) =
       [''\<newline>Appendix A: Code points that changed derived property values\<newline>\<newline>'',
        ''# Code point; Old; New; Name\<newline>'',
        ''U+0041; PVALID; DISALLOWED; LATIN A\<newline>'',
        ''# 1 code point changed from PVALID to DISALLOWED\<newline>'',
        ''# 2 code points changed from UNASSIGNED to PVALID\<newline>'',
        ''# 3 code points changed in total\<newline>'']"
proof -
  have h: "numAppendixA exState = 0" by (simp add: exState_sel)
  have a: "filter (categoryA exOld exNew) [65, 66, 67, 68, 69] = [65]"
    by (simp add: categoryA_def ex_keys exOld_def exNew_def index_def)
  have c: "filter (strictChange exOld exNew) [65, 66, 67, 68, 69] = [65, 66, 67]"
    by (simp add: strictChange_def ex_keys exOld_def exNew_def index_def)
  have k: "filter (\<lambda>cp. strictChange exOld exNew cp
              \<and> changeKey exOld exNew cp = ''UNASSIGNED to PVALID'') [65, 66, 67, 68, 69] = [66, 67]"
    by (simp add: strictChange_def changeKey_def ex_keys exOld_def exNew_def index_def)
  have l: "lineA exOld exNew exNames 65 = ''U+0041; PVALID; DISALLOWED; LATIN A\<newline>''"
    by (simp add: lineA_def ex_keys exOld_def exNew_def exNames_def index_def)
  have f: "flag exNames 65 = \<lparr>Number = 65, Name = ''U+0041; UNDER REVIEW # LATIN A''\<rparr>"
    by (simp add: flag_def underReview_def ex_keys exNames_def index_def)
  note t = appendixA_lines_and_tally [OF h, of exOld exNames "[65, 66, 67, 68, 69]",
      unfolded exState_sel a c k]
  have 1: "buffer (appendixA exOld exNames [65, 66, 67, 68, 69] exState) =
       [''\<newline>Appendix A: Code points that changed derived property values\<newline>\<newline>'',
        ''# Code point; Old; New; Name\<newline>'',
        ''U+0041; PVALID; DISALLOWED; LATIN A\<newline>'']"
    using t [THEN conjunct1] by (simp add: l)
  have 2: "appendix (appendixA exOld exNames [65, 66, 67, 68, 69] exState) =
       [\<lparr>Number = 65, Name = ''U+0041; UNDER REVIEW # LATIN A''\<rparr>]"
    using t [THEN conjunct2, THEN conjunct1] by (simp add: f)
  have 3: "indexInt (changeCounts (appendixA exOld exNames [65, 66, 67, 68, 69] exState))
        ''UNASSIGNED to PVALID'' = 2"
    using t [THEN conjunct2, THEN conjunct2, THEN conjunct1, THEN spec, of "''UNASSIGNED to PVALID''"]
    unfolding k by simp
  have 4: "sum_list (map snd (changeCounts (appendixA exOld exNames [65, 66, 67, 68, 69] exState))) = 3"
    using t [THEN conjunct2, THEN conjunct2, THEN conjunct2, THEN conjunct1] by simp
  have fair: "\<forall>m :: int gomap. mset (rev m) = mset m" by simp
  have cc: "changeCounts (appendixA exOld exNames [65, 66, 67, 68, 69] exState)
            = [(''PVALID to DISALLOWED'', 1), (''UNASSIGNED to PVALID'', 2)]"
    by code_simp
  have sl: "sort (map summaryLine [(''PVALID to DISALLOWED'', 1), (''UNASSIGNED to PVALID'', 2)])
            = [''# 1 code point changed from PVALID to DISALLOWED'',
               ''# 2 code points changed from UNASSIGNED to PVALID'']"
    by code_simp
  have tl: "''# '' @ fmtD 3 @ '' code '' @ plural 3 @ '' changed in total\<newline>''
            = ''# 3 code points changed in total\<newline>''"
    by code_simp
  have n: "int (length [65, 66, 67 :: int]) = 3" by simp
  have 5: "buffer (changeSummary rev (appendixA exOld exNames [65, 66, 67, 68, 69] exState)) =
       [''\<newline>Appendix A: Code points that changed derived property values\<newline>\<newline>'',
        ''# Code point; Old; New; Name\<newline>'',
        ''U+0041; PVALID; DISALLOWED; LATIN A\<newline>'',
        ''# 1 code point changed from PVALID to DISALLOWED\<newline>'',
        ''# 2 code points changed from UNASSIGNED to PVALID\<newline>'',
        ''# 3 code points changed in total\<newline>'']"
    using t [THEN conjunct2, THEN conjunct2, THEN conjunct2, THEN conjunct2, THEN conjunct2,
        THEN conjunct2, THEN conjunct2, THEN spec, of rev, THEN mp, OF fair]
    unfolding 1 cc sl n tl by (simp only: list.distinct if_False list.map append.simps)
  from h 1 2 3 4 5 show ?thesis by blast
qed



text \<open>
  C4. After the overwriting loop of Appendix E (lines 392--403), whatever order
  \<^verbatim>\<open>sort.Slice\<close> chose, the classification of every codepoint that occurs in the review
  list is \<open>UNDER REVIEW\<close>, and every other codepoint keeps the value it had.
\<close>

theorem overrideApplier_effective:
  assumes "sortsByNumber sortSlice"
  shows "\<forall>cp. index (properties2 (appendixE sortSlice s)) (fmt04X cp) =
            (if cp \<in> Number ` set (appendix s) then ''UNDER REVIEW''
             else index (properties2 s) (fmt04X cp))"
proof -
  have "(fmt04X cp \<in> (\<lambda>e. fmt04X (Number e)) ` set (appendix s)) = (cp \<in> Number ` set (appendix s))" for cp
    by (auto simp: fmt04X_inject)
  then show ?thesis
    by (simp add: index_def appendixE_lookup [OF assms])
qed



theorem overrideApplier_effective_witness:
  "sortsByNumber stableSlice
   \<and> index (properties2 (appendixE stableSlice
               (appendixA exOld exNames [65, 66, 67, 68, 69] exState))) (fmt04X 65)
       = ''UNDER REVIEW''
   \<and> index (properties2 (appendixE stableSlice
               (appendixA exOld exNames [65, 66, 67, 68, 69] exState))) (fmt04X 66)
       = ''PVALID''"
proof -
  have a: "appendix (appendixA exOld exNames [65, 66, 67, 68, 69] exState) = [flag exNames 65]"
    unfolding appendixA_sel exState_sel ex_categoryA by simp
  have n: "Number (flag exNames 65) = 65"
    by (simp add: flag_def underReview_def)
  have v: "index exNew (fmt04X 66) = ''PVALID''"
    by (simp add: ex_keys exNew_def index_def)
  note t = overrideApplier_effective [OF sortsByNumber_stableSlice,
      of "appendixA exOld exNames [65, 66, 67, 68, 69] exState",
      unfolded a appendixA_sel(2) exState_sel]
  from t [THEN spec, of 65] t [THEN spec, of 66] sortsByNumber_stableSlice show ?thesis
    by (simp add: n v)
qed

text \<open>
  C5. Appendix D (lines 355--387), run over codepoints that \<^verbatim>\<open>hexToInt\<close> produced and
  started with its counter at zero, does not panic and writes one line and appends one
  review entry for each codepoint, in ascending order, that existed in the old snapshot
  as \<open>UNASSIGNED\<close>, is \<open>PVALID\<close> in the new one and has a new decomposition of more than one
  token, and for no other codepoint: a decomposition of one token or none never fires,
  and a codepoint absent from the old snapshot never fires.
\<close>

theorem appendixD_lines_and_flags:
  assumes "\<forall>cp\<in>set cps. int32 cp" and "numAppendixD s = 0"
  shows "(\<exists>s'. appendixD old names oldNFK newNFK cps s = Inr s'
            \<and> buffer s' =
                buffer s
                @ (if filter (categoryD old (properties2 s) newNFK) cps = []
                   then [''# No new code points with length of NFK greater than one\<newline>'']
                   else map (lineD newNFK names)
                          (filter (categoryD old (properties2 s) newNFK) cps))
            \<and> appendix s' =
                appendix s
                @ map (flag names) (filter (categoryD old (properties2 s) newNFK) cps))
     \<and> (\<forall>cp. length (index newNFK (fmt04X cp)) \<le> 1
           \<longrightarrow> \<not> categoryD old (properties2 s) newNFK cp)
     \<and> (\<forall>cp. map_of old (fmt04X cp) = None \<longrightarrow> \<not> categoryD old (properties2 s) newNFK cp)"
proof -
  from appendixD_Inr [OF assms(1), of old names oldNFK newNFK s] assms(2)
  have "\<exists>s'. appendixD old names oldNFK newNFK cps s = Inr s'
            \<and> buffer s' =
                buffer s
                @ (if filter (categoryD old (properties2 s) newNFK) cps = []
                   then [''# No new code points with length of NFK greater than one\<newline>'']
                   else map (lineD newNFK names)
                          (filter (categoryD old (properties2 s) newNFK) cps))
            \<and> appendix s' =
                appendix s
                @ map (flag names) (filter (categoryD old (properties2 s) newNFK) cps)"
    by auto
  then show ?thesis
    by (simp add: categoryD_def split: option.splits)
qed

theorem appendixD_lines_and_flags_witness:
  "list_all int32 [65, 66, 67, 68, 69] \<and> numAppendixD exState = 0
   \<and> (\<exists>s'. appendixD exOld exNames [] exNewNFK [65, 66, 67, 68, 69] exState = Inr s'
          \<and> buffer s' = [''U+0042; 0041 0300; LATIN B\<newline>'']
          \<and> appendix s' = [\<lparr>Number = 66, Name = ''U+0042; UNDER REVIEW # LATIN B''\<rparr>])
   \<and> length (index exNewNFK (fmt04X 67)) \<le> 1
   \<and> \<not> categoryD exOld exNew exNewNFK 67
   \<and> map_of exOld (fmt04X 69) = None
   \<and> \<not> categoryD exOld exNew exNewNFK 69"
proof -
  have h: "numAppendixD exState = 0" by (simp add: exState_sel)
  have l: "lineD exNewNFK exNames 66 = ''U+0042; 0041 0300; LATIN B\<newline>''"
    by (simp add: lineD_def ex_keys exNewNFK_def exNames_def index_def)
  have f: "flag exNames 66 = \<lparr>Number = 66, Name = ''U+0042; UNDER REVIEW # LATIN B''\<rparr>"
    by (simp add: flag_def underReview_def ex_keys exNames_def index_def)
  have n: "length (index exNewNFK (fmt04X 67)) \<le> 1"
    by (simp add: ex_keys exNewNFK_def index_def)
  have a: "map_of exOld (fmt04X 69) = None"
    by (simp add: ex_keys exOld_def)
  note t = appendixD_lines_and_flags [OF ex_int32 h, of exOld exNames "[]" exNewNFK,
      unfolded exState_sel ex_categoryD]
  have 1: "\<exists>s'. appendixD exOld exNames [] exNewNFK [65, 66, 67, 68, 69] exState = Inr s'
          \<and> buffer s' = [''U+0042; 0041 0300; LATIN B\<newline>'']
          \<and> appendix s' = [\<lparr>Number = 66, Name = ''U+0042; UNDER REVIEW # LATIN B''\<rparr>]"
    using t [THEN conjunct1] by (simp add: l f)
  from t [THEN conjunct2, THEN conjunct1, THEN spec, of 67] n
  have 2: "\<not> categoryD exOld exNew exNewNFK 67" by blast
  from t [THEN conjunct2, THEN conjunct2, THEN spec, of 69] a
  have 3: "\<not> categoryD exOld exNew exNewNFK 69" by blast
  from ex_int32_all h 1 n 2 a 3 show ?thesis by blast
qed

text \<open>
  C6. Appendix B (lines 251--283), started with its counter at zero, writes one line for
  each codepoint, in ascending order, that existed in the old snapshot, whose general
  category changed and whose old and new classification both differ from \<open>UNASSIGNED\<close>,
  and for no other codepoint; it leaves the review list and its counter as they were.
\<close>

theorem appendixB_lines_no_flag:
  assumes "numAppendixB s = 0"
  shows "buffer (appendixB old names oldGC newGC cps s) =
       buffer s
       @ [''\<newline>\<newline>Appendix B: Changes in General Category\<newline>\<newline>'']
       @ (if filter (categoryB old (properties2 s) oldGC newGC) cps = []
          then [''# No changes in General Category detected\<newline>'']
          else ''# Code point; Old GC; New GC; Name\<newline>\<newline>''
               # map (lineB oldGC newGC names)
                   (filter (categoryB old (properties2 s) oldGC newGC) cps))
     \<and> appendix (appendixB old names oldGC newGC cps s) = appendix s
     \<and> numAppendixE (appendixB old names oldGC newGC cps s) = numAppendixE s"
  using appendixB_buffer [OF assms] by (simp add: appendixB_sel)

theorem appendixB_lines_no_flag_witness:
  "numAppendixB exState = 0
   \<and> buffer (appendixB exOld exNames exOldGC exNewGC [65, 66, 67, 68, 69] exState) =
       [''\<newline>\<newline>Appendix B: Changes in General Category\<newline>\<newline>'',
        ''# Code point; Old GC; New GC; Name\<newline>\<newline>'',
        ''U+0041; Lu; Mn; LATIN A\<newline>'', ''U+0044; Lu; Mn; LATIN D\<newline>'']
   \<and> appendix (appendixB exOld exNames exOldGC exNewGC [65, 66, 67, 68, 69] exState) = []"
proof -
  have h: "numAppendixB exState = 0" by (simp add: exState_sel)
  have l: "lineB exOldGC exNewGC exNames 68 = ''U+0044; Lu; Mn; LATIN D\<newline>''"
    "lineB exOldGC exNewGC exNames 65 = ''U+0041; Lu; Mn; LATIN A\<newline>''"
    by (simp_all add: lineB_def ex_keys exOldGC_def exNewGC_def exNames_def index_def)
  note t = appendixB_lines_no_flag [OF h, of exOld exNames exOldGC exNewGC "[65, 66, 67, 68, 69]",
      unfolded exState_sel ex_categoryB]
  have 1: "buffer (appendixB exOld exNames exOldGC exNewGC [65, 66, 67, 68, 69] exState) =
       [''\<newline>\<newline>Appendix B: Changes in General Category\<newline>\<newline>'',
        ''# Code point; Old GC; New GC; Name\<newline>\<newline>'',
        ''U+0041; Lu; Mn; LATIN A\<newline>'', ''U+0044; Lu; Mn; LATIN D\<newline>'']"
    using t [THEN conjunct1] by (simp add: l)
  from h 1 t [THEN conjunct2, THEN conjunct1] show ?thesis by blast
qed

text \<open>
  C8. Appendix F (lines 410--446) writes one line per range that the loop emits. Over
  codepoints in ascending order, two ranges emitted one after the other never carry the
  same value, and every codepoint of the table that lies between the start and the end
  of an emitted range has the value of that range.
\<close>

theorem appendixF_ranges_maximal_uniform:
  assumes "sorted cps"
  shows "buffer (appendixF version2 cps s) =
       buffer s
       @ [''\<newline>Appendix F: Derived property values Unicode '' @ version2 @ ''\<newline>\<newline>'']
       @ map (\<lambda>(start, end', currentProperty). rangeLine start end' currentProperty)
           (rangeCompactor rangeTriple (properties2 s) cps)
     \<and> (\<forall>i. Suc i < length (rangeCompactor rangeTriple (properties2 s) cps) \<longrightarrow>
           snd (snd (rangeCompactor rangeTriple (properties2 s) cps ! i))
             \<noteq> snd (snd (rangeCompactor rangeTriple (properties2 s) cps ! Suc i)))
     \<and> (\<forall>(start, end', currentProperty)\<in>set (rangeCompactor rangeTriple (properties2 s) cps).
           \<forall>cp\<in>set cps. start \<le> cp \<and> cp \<le> end'
             \<longrightarrow> index (properties2 s) (fmt04X cp) = currentProperty)"
  using rangeCompactor_values [OF assms, of "properties2 s"]
  by (simp add: appendixF_buffer rangeCompactor_distinct_adj)

theorem appendixF_ranges_maximal_uniform_witness:
  "sorted [65, 66, 67, 68, 69 :: int]
   \<and> buffer (appendixF ''13.0.0'' [65, 66, 67, 68, 69] exState) =
       [''\<newline>Appendix F: Derived property values Unicode 13.0.0\<newline>\<newline>'',
        ''U+0041; DISALLOWED\<newline>'', ''U+0042..U+0045; PVALID\<newline>'']
   \<and> snd (snd (rangeCompactor rangeTriple exNew [65, 66, 67, 68, 69] ! 0))
       \<noteq> snd (snd (rangeCompactor rangeTriple exNew [65, 66, 67, 68, 69] ! Suc 0))
   \<and> index exNew (fmt04X 68) = ''PVALID''"
proof -
  note t = appendixF_ranges_maximal_uniform [OF ex_sorted, of "''13.0.0''" exState,
      unfolded exState_sel]
  have 1: "buffer (appendixF ''13.0.0'' [65, 66, 67, 68, 69] exState) =
       [''\<newline>Appendix F: Derived property values Unicode 13.0.0\<newline>\<newline>'',
        ''U+0041; DISALLOWED\<newline>'', ''U+0042..U+0045; PVALID\<newline>'']"
    using t [THEN conjunct1] unfolding ex_ranges by (simp add: ex_rangeLines)
  have 2: "snd (snd (rangeCompactor rangeTriple exNew [65, 66, 67, 68, 69] ! 0))
       \<noteq> snd (snd (rangeCompactor rangeTriple exNew [65, 66, 67, 68, 69] ! Suc 0))"
    using t [THEN conjunct2, THEN conjunct1, THEN spec, of 0] by (simp add: ex_ranges)
  have "(66, 69, ''PVALID'') \<in> set (rangeCompactor rangeTriple exNew [65, 66, 67, 68, 69])"
    by (simp add: ex_ranges)
  with t [THEN conjunct2, THEN conjunct2] have 3: "index exNew (fmt04X 68) = ''PVALID''"
    by fastforce
  from ex_sorted 1 2 3 show ?thesis by blast
qed

text \<open>
  C3. Re-expanding the emitted ranges does not always give back the table: the loop
  extends a run over codepoints that the table does not contain. With the codepoints
  U+0041 and U+0043 alone, both \<open>PVALID\<close>, the one range U+0041..U+0043 is emitted, and
  its expansion assigns \<open>PVALID\<close> to U+0042, which the table does not have.
\<close>

theorem rangeCompactor_roundtrip_counterexample:
  "collectCodepoints (map fst exSparse) [] = Inr [65, 67]
   \<and> sort [65, 67 :: int] = [65, 67]
   \<and> expand (rangeCompactor rangeTriple exSparse [65, 67])
       = [(65, ''PVALID''), (66, ''PVALID''), (67, ''PVALID'')]
   \<and> map_of exSparse (fmt04X 66) = None
   \<and> set (expand (rangeCompactor rangeTriple exSparse [65, 67]))
       \<noteq> (\<lambda>cp. (cp, index exSparse (fmt04X cp))) ` set [65, 67]"
proof -
  have 1: "collectCodepoints (map fst exSparse) [] = Inr [65, 67]"
    by (simp add: exSparse_def ex_hexToInt)
  have 2: "sort [65, 67 :: int] = [65, 67]" by simp
  have r: "rangeCompactor rangeTriple exSparse [65, 67] = [(65, 67, ''PVALID'')]"
    by (simp add: rangeCompactor_def stepF_def rangeTriple_def ex_keys exSparse_def index_def)
  have u: "[65..67::int] = [65, 66, 67]" by code_simp
  have 3: "expand (rangeCompactor rangeTriple exSparse [65, 67])
       = [(65, ''PVALID''), (66, ''PVALID''), (67, ''PVALID'')]"
    by (simp add: r expand_def u)
  have 4: "map_of exSparse (fmt04X 66) = None"
    by (simp add: ex_keys exSparse_def)
  have 5: "set (expand (rangeCompactor rangeTriple exSparse [65, 67]))
       \<noteq> (\<lambda>cp. (cp, index exSparse (fmt04X cp))) ` set [65, 67]"
  proof
    assume eq: "set (expand (rangeCompactor rangeTriple exSparse [65, 67]))
       = (\<lambda>cp. (cp, index exSparse (fmt04X cp))) ` set [65, 67]"
    have "(66, ''PVALID'') \<in> set (expand (rangeCompactor rangeTriple exSparse [65, 67]))"
      by (simp add: 3)
    then have "(66, ''PVALID'') \<in> (\<lambda>cp. (cp, index exSparse (fmt04X cp))) ` set [65, 67]"
      unfolding eq .
    then obtain cp :: int where "cp \<in> set [65, 67]" "(66, ''PVALID'') = (cp, index exSparse (fmt04X cp))"
      by (rule imageE)
    then have "cp = 66" "cp = 65 \<or> cp = 67" by simp_all
    then show False by simp
  qed
  from 1 2 3 4 5 show ?thesis by blast
qed

text \<open>
  C3, as the code has it. For a table that is not empty and codepoints in ascending
  order, every codepoint of the table lies in exactly one emitted range; the pairs of the
  expansion whose codepoint is in the table are exactly the pairs of the table; and when
  the codepoints of the table are consecutive integers, the expansion is exactly the
  table.
\<close>

theorem rangeCompactor_roundtrip:
  assumes "sorted cps" and "cps \<noteq> []"
  shows "(\<forall>cp\<in>set cps.
            \<exists>!i. i < length (rangeCompactor rangeTriple props cps)
                \<and> fst (rangeCompactor rangeTriple props cps ! i) \<le> cp
                \<and> cp \<le> fst (snd (rangeCompactor rangeTriple props cps ! i)))
     \<and> {(cp, v). (cp, v) \<in> set (expand (rangeCompactor rangeTriple props cps)) \<and> cp \<in> set cps}
         = (\<lambda>cp. (cp, index props (fmt04X cp))) ` set cps
     \<and> ((\<forall>cp. hd cps \<le> cp \<and> cp \<le> last cps \<longrightarrow> cp \<in> set cps) \<longrightarrow>
          set (expand (rangeCompactor rangeTriple props cps))
            = (\<lambda>cp. (cp, index props (fmt04X cp))) ` set cps)"
proof (intro conjI ballI impI)
  fix cp assume "cp \<in> set cps"
  then show "\<exists>!i. i < length (rangeCompactor rangeTriple props cps)
                \<and> fst (rangeCompactor rangeTriple props cps ! i) \<le> cp
                \<and> cp \<le> fst (snd (rangeCompactor rangeTriple props cps ! i))"
    by (rule rangeCompactor_unique [OF assms(1)])
next
  show "{(cp, v). (cp, v) \<in> set (expand (rangeCompactor rangeTriple props cps)) \<and> cp \<in> set cps}
         = (\<lambda>cp. (cp, index props (fmt04X cp))) ` set cps"
    by (rule expand_on_table [OF assms(1)])
next
  assume dense: "\<forall>cp. hd cps \<le> cp \<and> cp \<le> last cps \<longrightarrow> cp \<in> set cps"
  have "set (expand (rangeCompactor rangeTriple props cps))
        = {(cp, v). (cp, v) \<in> set (expand (rangeCompactor rangeTriple props cps)) \<and> cp \<in> set cps}"
    using expand_within [OF assms, of _ _ props] dense by auto
  then show "set (expand (rangeCompactor rangeTriple props cps))
            = (\<lambda>cp. (cp, index props (fmt04X cp))) ` set cps"
    using expand_on_table [OF assms(1), of props] by simp
qed

theorem rangeCompactor_roundtrip_witness:
  "sorted [65, 66, 67, 68, 69 :: int] \<and> [65, 66, 67, 68, 69 :: int] \<noteq> []
   \<and> {hd [65, 66, 67, 68, 69 :: int] .. last [65, 66, 67, 68, 69]} \<subseteq> set [65, 66, 67, 68, 69]
   \<and> set (expand (rangeCompactor rangeTriple exNew [65, 66, 67, 68, 69]))
       = (\<lambda>cp. (cp, index exNew (fmt04X cp))) ` set [65, 66, 67, 68, 69]
   \<and> (\<exists>!i. i < length (rangeCompactor rangeTriple exNew [65, 66, 67, 68, 69])
          \<and> fst (rangeCompactor rangeTriple exNew [65, 66, 67, 68, 69] ! i) \<le> 67
          \<and> 67 \<le> fst (snd (rangeCompactor rangeTriple exNew [65, 66, 67, 68, 69] ! i)))"
proof -
  have ne: "[65, 66, 67, 68, 69 :: int] \<noteq> []" by simp
  note t = rangeCompactor_roundtrip [OF ex_sorted ne, of exNew]
  have m: "(67 :: int) \<in> set [65, 66, 67, 68, 69]" by simp
  from t [THEN conjunct2, THEN conjunct2, THEN mp, OF ex_dense]
       t [THEN conjunct1, THEN bspec, OF m] ex_sorted ne ex_dense_set
  show ?thesis by blast
qed

text \<open>
  C2. The loop of lines 398--403 assigns into \<^verbatim>\<open>properties2\<close> itself; the program makes no
  copy. After Appendix A has flagged U+0041, whose new classification is \<open>DISALLOWED\<close>,
  the mapping of the new snapshot holds \<open>UNDER REVIEW\<close> for it.
\<close>

theorem overrideApplier_copy_counterexample:
  "properties2 (appendixA exOld exNames [65, 66, 67, 68, 69] exState) = exNew
   \<and> map_of exNew ''0041'' = Some ''DISALLOWED''
   \<and> map_of (properties2 (appendixE stableSlice
               (appendixA exOld exNames [65, 66, 67, 68, 69] exState))) ''0041''
       = Some ''UNDER REVIEW''
   \<and> properties2 (appendixE stableSlice
        (appendixA exOld exNames [65, 66, 67, 68, 69] exState))
       \<noteq> properties2 (appendixA exOld exNames [65, 66, 67, 68, 69] exState)"
proof -
  have 1: "properties2 (appendixA exOld exNames [65, 66, 67, 68, 69] exState) = exNew"
    by (simp add: appendixA_sel exState_sel)
  have 2: "map_of exNew ''0041'' = Some ''DISALLOWED''"
    by (simp add: exNew_def)
  have 3: "map_of (properties2 (appendixE stableSlice
               (appendixA exOld exNames [65, 66, 67, 68, 69] exState))) ''0041''
       = Some ''UNDER REVIEW''"
    by (simp add: appendixE_lookup [OF sortsByNumber_stableSlice] ex_appendixA_flags ex_flag65 ex_keys)
  from 1 2 3 show ?thesis by auto
qed

text \<open>
  C2, as the code has it. After the loop, every key that is not the key of a flagged
  codepoint holds in the mapping of the new snapshot the value it held before, every
  flagged codepoint holds \<open>UNDER REVIEW\<close> there, and when nothing is flagged the mapping
  is unchanged.
\<close>

theorem overrideApplier_in_place:
  assumes "sortsByNumber sortSlice"
  shows "(\<forall>k. k \<notin> (\<lambda>e. fmt04X (Number e)) ` set (appendix s) \<longrightarrow>
            map_of (properties2 (appendixE sortSlice s)) k = map_of (properties2 s) k)
     \<and> (\<forall>e\<in>set (appendix s).
            map_of (properties2 (appendixE sortSlice s)) (fmt04X (Number e)) = Some ''UNDER REVIEW'')
     \<and> (appendix s = [] \<longrightarrow> properties2 (appendixE sortSlice s) = properties2 s)"
proof (intro conjI allI ballI impI)
  fix k assume "k \<notin> (\<lambda>e. fmt04X (Number e)) ` set (appendix s)"
  then show "map_of (properties2 (appendixE sortSlice s)) k = map_of (properties2 s) k"
    by (simp add: appendixE_lookup [OF assms])
next
  fix e assume "e \<in> set (appendix s)"
  then show "map_of (properties2 (appendixE sortSlice s)) (fmt04X (Number e))
               = Some ''UNDER REVIEW''"
    by (simp add: appendixE_lookup [OF assms])
next
  assume "appendix s = []"
  then show "properties2 (appendixE sortSlice s) = properties2 s"
    by (simp add: appendixE_properties2_fold sortsByNumber_Nil [OF assms])
qed

theorem overrideApplier_in_place_witness:
  "sortsByNumber stableSlice
   \<and> ''0042'' \<notin> (\<lambda>e. fmt04X (Number e))
         ` set (appendix (appendixA exOld exNames [65, 66, 67, 68, 69] exState))
   \<and> map_of (properties2 (appendixE stableSlice
               (appendixA exOld exNames [65, 66, 67, 68, 69] exState))) ''0042''
       = Some ''PVALID''
   \<and> map_of (properties2 (appendixE stableSlice
               (appendixA exOld exNames [65, 66, 67, 68, 69] exState))) ''0041''
       = Some ''UNDER REVIEW''
   \<and> appendix exState = []
   \<and> properties2 (appendixE stableSlice exState) = exNew"
proof -
  note t = overrideApplier_in_place [OF sortsByNumber_stableSlice,
      of "appendixA exOld exNames [65, 66, 67, 68, 69] exState",
      unfolded ex_appendixA_flags appendixA_sel(2) exState_sel]
  note u = overrideApplier_in_place [OF sortsByNumber_stableSlice, of exState,
      unfolded exState_sel]
  have k: "''0042'' \<notin> (\<lambda>e. fmt04X (Number e))
         ` set (appendix (appendixA exOld exNames [65, 66, 67, 68, 69] exState))"
    by (simp add: ex_appendixA_flags ex_flag65 ex_keys)
  have k': "''0042'' \<notin> (\<lambda>e. fmt04X (Number e)) ` set [flag exNames 65]"
    by (simp add: ex_flag65 ex_keys)
  have 1: "map_of (properties2 (appendixE stableSlice
               (appendixA exOld exNames [65, 66, 67, 68, 69] exState))) ''0042''
       = Some ''PVALID''"
    using t [THEN conjunct1, THEN spec, of "''0042''"] k' by (simp add: exNew_def)
  have 2: "map_of (properties2 (appendixE stableSlice
               (appendixA exOld exNames [65, 66, 67, 68, 69] exState))) ''0041''
       = Some ''UNDER REVIEW''"
    using t [THEN conjunct2, THEN conjunct1] by (simp add: ex_flag65 ex_keys)
  have 3: "properties2 (appendixE stableSlice exState) = exNew"
    using u [THEN conjunct2, THEN conjunct2] by simp
  from sortsByNumber_stableSlice k 1 2 3 show ?thesis by (simp add: exState_sel)
qed

text \<open>
  C9. The report buffer is printed once, at line 448, after all six sections have been
  written into it, and every early return and every panic comes before that line. So a
  run either prints one report, which holds the six titles in order, and ends at its last
  line, or prints no report at all; and when one of the six files cannot be read, it
  prints none.
\<close>

theorem compareVersions_all_or_nothing:
  "(fst (compareVersions sch sortSlice ld version1 version2) = Finished
      \<and> (\<exists>a b c d x y. reports (stdout (snd (compareVersions sch sortSlice ld version1 version2))) =
            [titleA # a @ titleB # b @ titleC # c @ titleD # d @ titleE # x
             @ titleF version2 # y])
    \<or> fst (compareVersions sch sortSlice ld version1 version2) \<noteq> Finished
      \<and> reports (stdout (snd (compareVersions sch sortSlice ld version1 version2))) = [])
   \<and> (isl (readCodepointProperties ld (filepath_Join version1 ''allcodepoints.txt''))
        \<or> isl (readCodepointProperties ld (filepath_Join version2 ''allcodepoints.txt''))
        \<or> isl (readGeneralCategory ld (filepath_Join version1 ''DerivedGeneralCategory.txt''))
        \<or> isl (readGeneralCategory ld (filepath_Join version2 ''DerivedGeneralCategory.txt''))
        \<or> isl (readNFKData ld (filepath_Join version1 ''nfk.txt''))
        \<or> isl (readNFKData ld (filepath_Join version2 ''nfk.txt''))
      \<longrightarrow> reports (stdout (snd (compareVersions sch sortSlice ld version1 version2))) = [])"
proof -
  obtain e s where res: "compareVersions sch sortSlice ld version1 version2 = (e, s)"
    by (cases "compareVersions sch sortSlice ld version1 version2") auto
  from compareVersions_reports [where sch=sch and f=sortSlice and ld=ld and ?v1.0=version1
      and ?v2.0=version2] res
  have "(e = Finished
           \<and> \<not> isl (readCodepointProperties ld (filepath_Join version1 ''allcodepoints.txt''))
           \<and> \<not> isl (readCodepointProperties ld (filepath_Join version2 ''allcodepoints.txt''))
           \<and> \<not> isl (readGeneralCategory ld (filepath_Join version1 ''DerivedGeneralCategory.txt''))
           \<and> \<not> isl (readGeneralCategory ld (filepath_Join version2 ''DerivedGeneralCategory.txt''))
           \<and> \<not> isl (readNFKData ld (filepath_Join version1 ''nfk.txt''))
           \<and> \<not> isl (readNFKData ld (filepath_Join version2 ''nfk.txt''))
           \<and> (\<exists>a b c d x y. reports (stdout s) =
                 [titleA # a @ titleB # b @ titleC # c @ titleD # d @ titleE # x
                  @ titleF version2 # y]))
        \<or> (e \<noteq> Finished \<and> reports (stdout s) = [])"
    by simp
  then show ?thesis
    unfolding res fst_conv snd_conv by blast
qed

theorem compareVersions_all_or_nothing_witness:
  "isl (readNFKData exLoadersNoNFK (filepath_Join ''13.0.0'' ''nfk.txt''))
   \<and> reports (stdout (snd (compareVersions inOrder stableSlice exLoadersNoNFK
                              ''12.0.0'' ''13.0.0''))) = []
   \<and> fst (compareVersions inOrder stableSlice exLoadersNoNFK ''12.0.0'' ''13.0.0'')
       \<noteq> Finished"
proof -
  note t = compareVersions_all_or_nothing [of inOrder stableSlice exLoadersNoNFK
      "''12.0.0''" "''13.0.0''"]
  from t [THEN conjunct2] ex_noNFK
  have 1: "reports (stdout (snd (compareVersions inOrder stableSlice exLoadersNoNFK
                              ''12.0.0'' ''13.0.0''))) = []"
    by blast
  with t [THEN conjunct1]
  have 2: "fst (compareVersions inOrder stableSlice exLoadersNoNFK ''12.0.0'' ''13.0.0'')
       \<noteq> Finished"
    by auto
  from ex_noNFK 1 2 show ?thesis by blast
qed

text \<open>
  C10. What a run prints does not depend on the order in which Go ranges over the maps,
  nor on how \<^verbatim>\<open>sort.Slice\<close> arranges entries of equal codepoint: for the same files, two
  runs under any two schedules and any two sorting functions that meet the promise of
  \<^verbatim>\<open>sort.Slice\<close> print the same chunks in the same order, the report among them.
\<close>

theorem compareVersions_deterministic:
  assumes "fair sch" and "fair sch'" and "sortsByNumber sortSlice" and "sortsByNumber sortSlice'"
  shows "stdout (snd (compareVersions sch sortSlice ld version1 version2))
           = stdout (snd (compareVersions sch' sortSlice' ld version1 version2))
       \<and> reports (stdout (snd (compareVersions sch sortSlice ld version1 version2)))
           = reports (stdout (snd (compareVersions sch' sortSlice' ld version1 version2)))"
  by (simp add: compareVersions_det [OF assms(1) assms(3)]
        compareVersions_det [OF assms(2) assms(4)])

theorem compareVersions_deterministic_witness:
  "fair inOrder \<and> fair backwards \<and> sortsByNumber stableSlice
   \<and> sortsByNumber tiesReversed
   \<and> stdout (snd (compareVersions inOrder stableSlice exLoaders ''12.0.0'' ''13.0.0''))
       = stdout (snd (compareVersions backwards tiesReversed exLoaders
                        ''12.0.0'' ''13.0.0''))"
  using compareVersions_deterministic [OF fair_inOrder fair_backwards sortsByNumber_stableSlice
      sortsByNumber_tiesReversed, of exLoaders "''12.0.0''" "''13.0.0''"]
    fair_inOrder fair_backwards sortsByNumber_stableSlice sortsByNumber_tiesReversed
  by blast




end
